theory Spec2Isabelle
  imports Complex_Main "HOL-Library.AList" "HOL-Library.State_Monad"
begin

section \<open>Text and characters\<close>

text \<open>
  A Python \<open>str\<close> is a sequence of code points. The model takes the code points
  below 256: a text is a \<open>string\<close>, and a \<open>char\<close> is read as the code point
  \<open>of_char c\<close>. The three character classes the regular expressions of
  \<^verbatim>\<open>simplifier.py\<close> consult are written out for that range:
  \<^item> \<open>isspace\<close>: what \<^verbatim>\<open>\s\<close>, \<^verbatim>\<open>str.strip()\<close> and \<^verbatim>\<open>str.split()\<close> take as
    whitespace;
  \<^item> \<open>isword\<close>: what \<^verbatim>\<open>\b\<close> takes as a word character (alphanumeric or \<open>_\<close>);
  \<^item> \<open>tolower\<close>: the folding under which \<^verbatim>\<open>re.IGNORECASE\<close> compares.
\<close>

definition isspace :: "char \<Rightarrow> bool" where
  "isspace c =
     (let n = (of_char c :: nat)
      in (9 \<le> n \<and> n \<le> 13) \<or> (28 \<le> n \<and> n \<le> 32) \<or> n = 133 \<or> n = 160)"

definition isword :: "char \<Rightarrow> bool" where
  "isword c =
     (let n = (of_char c :: nat)
      in (48 \<le> n \<and> n \<le> 57) \<or> (65 \<le> n \<and> n \<le> 90) \<or> n = 95 \<or> (97 \<le> n \<and> n \<le> 122)
         \<or> n = 170 \<or> n = 178 \<or> n = 179 \<or> n = 181 \<or> n = 185 \<or> n = 186
         \<or> (188 \<le> n \<and> n \<le> 190) \<or> (192 \<le> n \<and> n \<le> 214) \<or> (216 \<le> n \<and> n \<le> 246)
         \<or> (248 \<le> n \<and> n \<le> 255))"

definition tolower :: "char \<Rightarrow> char" where
  "tolower c =
     (let n = (of_char c :: nat)
      in if (65 \<le> n \<and> n \<le> 90) \<or> (192 \<le> n \<and> n \<le> 222 \<and> n \<noteq> 215)
         then char_of (n + 32) else c)"

datatype error = ReError | KeyError | TypeError

text \<open>
  \<open>ReError\<close> stands for the exception that \<^verbatim>\<open>re.sub\<close> raises on a replacement
  string it cannot parse (\<^verbatim>\<open>re.error\<close>, or \<^verbatim>\<open>IndexError\<close> for an unknown group
  name); \<open>KeyError\<close> for a pattern entry without \<^verbatim>\<open>"search"\<close> or \<^verbatim>\<open>"replace"\<close>;
  \<open>TypeError\<close> is the one \<^verbatim>\<open>_simplify_entry\<close> raises itself.
\<close>

section \<open>\<^verbatim>\<open>str\<close> methods\<close>

definition strip :: "string \<Rightarrow> string" where
  "strip s = rev (dropWhile isspace (rev (dropWhile isspace s)))"

text \<open>\<^verbatim>\<open>s.split()\<close>: the maximal runs of non-whitespace characters.\<close>

fun split_ws :: "string \<Rightarrow> string \<Rightarrow> string list" where
  "split_ws cur [] = (if cur = [] then [] else [cur])"
| "split_ws cur (c # cs) =
     (if isspace c then (if cur = [] then split_ws [] cs else cur # split_ws [] cs)
      else split_ws (cur @ [c]) cs)"

text \<open>\<^verbatim>\<open>s.split(sep)\<close> for a one-character separator: one more part than separators.\<close>

fun split_on :: "char \<Rightarrow> string \<Rightarrow> string list" where
  "split_on sep [] = [[]]"
| "split_on sep (c # cs) =
     (if c = sep then [] # split_on sep cs
      else (case split_on sep cs of
              p # ps \<Rightarrow> (c # p) # ps
            | [] \<Rightarrow> [[c]]))"

fun join :: "string \<Rightarrow> string list \<Rightarrow> string" where
  "join sep [] = []"
| "join sep [x] = x"
| "join sep (x # y # ys) = x @ sep @ join sep (y # ys)"

definition endswith_any :: "string \<Rightarrow> char list \<Rightarrow> bool" where
  "endswith_any s cs = (case rev s of [] \<Rightarrow> False | c # _ \<Rightarrow> c \<in> set cs)"

section \<open>\<^verbatim>\<open>re.sub\<close> with an escaped literal pattern\<close>

subsection \<open>The replacement template\<close>

text \<open>
  \<^verbatim>\<open>re.sub\<close> reads its replacement argument as a template: a backslash starts an
  escape. The patterns of \<^verbatim>\<open>simplifier.py\<close> have no group, so the only group
  reference that resolves is group 0, the whole match. Group names follow the rule of
  Python 3.12: a name is a run of ASCII digits (of at most 4300 digits), and earlier
  versions still accept a sign, blanks or underscores in it, with a warning.
\<close>

datatype titem = Lit char | Group0

definition octdigit :: "char \<Rightarrow> bool" where
  "octdigit c = (c \<in> set ''01234567'')"

definition digit :: "char \<Rightarrow> bool" where
  "digit c = (c \<in> set ''0123456789'')"

definition asciiletter :: "char \<Rightarrow> bool" where
  "asciiletter c =
     (let n = (of_char c :: nat) in (65 \<le> n \<and> n \<le> 90) \<or> (97 \<le> n \<and> n \<le> 122))"

definition octval :: "char \<Rightarrow> nat" where
  "octval c = of_char c - 48"

definition group_name :: "string \<Rightarrow> (string \<times> string) option" where
  \<comment> \<open>the text after \<^verbatim>\<open>\g\<close>: \<open><name>\<close> and what follows it\<close>
  "group_name s =
     (case s of
        [] \<Rightarrow> None
      | c # cs \<Rightarrow>
          if c \<noteq> CHR ''<'' then None
          else (let name = takeWhile (\<lambda>x. x \<noteq> CHR ''>'') cs;
                    rest = dropWhile (\<lambda>x. x \<noteq> CHR ''>'') cs
                in if rest = [] \<or> name = [] then None else Some (name, tl rest)))"

definition escape_char :: "char \<Rightarrow> char option" where
  "escape_char c =
     (if c = CHR ''a'' then Some (CHR 0x07)
      else if c = CHR ''b'' then Some (CHR 0x08)
      else if c = CHR ''f'' then Some (CHR 0x0C)
      else if c = CHR ''n'' then Some (CHR 0x0A)
      else if c = CHR ''r'' then Some (CHR 0x0D)
      else if c = CHR ''t'' then Some (CHR 0x09)
      else if c = CHR ''v'' then Some (CHR 0x0B)
      else if c = CHR 0x5C then Some (CHR 0x5C)
      else None)"

function parse_template :: "string \<Rightarrow> error + titem list" where
  "parse_template [] = Inr []"
| "parse_template (c # cs) =
     (if c \<noteq> CHR 0x5C then
        (case parse_template cs of Inl e \<Rightarrow> Inl e | Inr t \<Rightarrow> Inr (Lit c # t))
      else
        (case cs of
           [] \<Rightarrow> Inl ReError
         | d # ds \<Rightarrow>
             if d = CHR ''g'' then
               (case group_name ds of
                  None \<Rightarrow> Inl ReError
                | Some (name, rest) \<Rightarrow>
                    if list_all (\<lambda>x. x = CHR ''0'') name \<and> length name \<le> 4300 then
                      (case parse_template rest of
                         Inl e \<Rightarrow> Inl e | Inr t \<Rightarrow> Inr (Group0 # t))
                    else Inl ReError)
             else if d = CHR ''0'' then
               (let os = takeWhile octdigit (take 2 ds);
                    v = foldl (\<lambda>a x. 8 * a + octval x) 0 os
                in case parse_template (drop (length os) ds) of
                     Inl e \<Rightarrow> Inl e | Inr t \<Rightarrow> Inr (Lit (char_of v) # t))
             else if digit d then
               (if octdigit d \<and> 2 \<le> length ds \<and> list_all octdigit (take 2 ds) then
                  (let v = foldl (\<lambda>a x. 8 * a + octval x) 0 (d # take 2 ds)
                   in if v > 255 then Inl ReError
                      else (case parse_template (drop 2 ds) of
                              Inl e \<Rightarrow> Inl e | Inr t \<Rightarrow> Inr (Lit (char_of v) # t)))
                else Inl ReError)
             else
               (case escape_char d of
                  Some x \<Rightarrow>
                    (case parse_template ds of Inl e \<Rightarrow> Inl e | Inr t \<Rightarrow> Inr (Lit x # t))
                | None \<Rightarrow>
                    if asciiletter d then Inl ReError
                    else (case parse_template ds of
                            Inl e \<Rightarrow> Inl e | Inr t \<Rightarrow> Inr (Lit c # Lit d # t)))))"
  by pat_completeness auto

lemma group_name_length: "group_name s = Some (name, rest) \<Longrightarrow> length rest < length s"
  by (auto simp: group_name_def Let_def less_Suc_eq_le split: list.splits if_splits)
     (metis diff_le_self le_trans length_dropWhile_le)

termination parse_template
  by (relation "measure length") (auto dest: group_name_length)

definition expand_template :: "titem list \<Rightarrow> string \<Rightarrow> string" where
  "expand_template t m = concat (map (\<lambda>i. case i of Lit c \<Rightarrow> [c] | Group0 \<Rightarrow> m) t)"

subsection \<open>Matching and substitution\<close>

text \<open>
  \<^verbatim>\<open>re.escape\<close> makes the pattern match its argument character by character, and
  \<^verbatim>\<open>re.IGNORECASE\<close> compares the characters folded. \<open>bounded\<close> says whether the
  pattern is wrapped in \<^verbatim>\<open>\b ... \b\<close>. A position of the scan is the character
  before it (\<open>None\<close> at the start of the text) and the text from it on.
\<close>

definition ci_prefix :: "string \<Rightarrow> string \<Rightarrow> bool" where
  "ci_prefix lit s =
     (length lit \<le> length s \<and> map tolower lit = map tolower (take (length lit) s))"

definition word_at :: "char option \<Rightarrow> bool" where
  "word_at x = (case x of None \<Rightarrow> False | Some c \<Rightarrow> isword c)"

definition boundary :: "char option \<Rightarrow> string \<Rightarrow> bool" where
  \<comment> \<open>\<^verbatim>\<open>\b\<close> between the character \<open>prev\<close> and the text \<open>rest\<close>\<close>
  "boundary prev rest =
     (word_at prev \<noteq> word_at (case rest of [] \<Rightarrow> None | c # _ \<Rightarrow> Some c))"

definition match_here :: "bool \<Rightarrow> string \<Rightarrow> char option \<Rightarrow> string \<Rightarrow> bool" where
  "match_here bounded lit prev rest =
     (ci_prefix lit rest \<and>
      (if bounded then
         boundary prev rest \<and>
         boundary (if lit = [] then prev else Some (last (take (length lit) rest)))
                  (drop (length lit) rest)
       else True))"

text \<open>
  The scan of \<^verbatim>\<open>re.sub\<close>: the leftmost match from the current position on is
  replaced and the scan goes on behind it; a match of the empty pattern is followed by
  one copied character.
\<close>

function sub_scan :: "bool \<Rightarrow> string \<Rightarrow> titem list \<Rightarrow> char option \<Rightarrow> string \<Rightarrow> string" where
  "sub_scan bounded lit t prev rest =
     (if match_here bounded lit prev rest then
        expand_template t (take (length lit) rest) @
        (if lit = [] then
           (case rest of [] \<Rightarrow> [] | c # cs \<Rightarrow> c # sub_scan bounded lit t (Some c) cs)
         else sub_scan bounded lit t (Some (last (take (length lit) rest)))
                (drop (length lit) rest))
      else (case rest of [] \<Rightarrow> [] | c # cs \<Rightarrow> c # sub_scan bounded lit t (Some c) cs))"
  by pat_completeness auto
termination
  by (relation "measure (\<lambda>(bounded, lit, t, prev, rest). length rest)")
     (auto simp: match_here_def ci_prefix_def neq_Nil_conv)

declare sub_scan.simps [simp del]

definition re_sub :: "bool \<Rightarrow> string \<Rightarrow> string \<Rightarrow> string \<Rightarrow> error + string" where
  "re_sub bounded lit repl text =
     (case parse_template repl of
        Inl e \<Rightarrow> Inl e
      | Inr t \<Rightarrow> Inr (sub_scan bounded lit t None text))"

subsection \<open>\<^verbatim>\<open>re.sub(r"\s+", " ", text)\<close> and \<^verbatim>\<open>re.split(r"(?<=[.!?])\s+", text)\<close>\<close>

function collapse_ws :: "string \<Rightarrow> string" where
  "collapse_ws [] = []"
| "collapse_ws (c # cs) =
     (if isspace c then CHR '' '' # collapse_ws (dropWhile isspace cs)
      else c # collapse_ws cs)"
  by pat_completeness auto
termination
  by (relation "measure length") (auto simp: less_Suc_eq_le length_dropWhile_le)

definition normalise_ws :: "string \<Rightarrow> string" where
  "normalise_ws text = strip (collapse_ws text)"

definition terminator :: "char \<Rightarrow> bool" where
  "terminator c = (c \<in> set ''.!?'')"

function split_sentences :: "bool \<Rightarrow> string \<Rightarrow> string list" where
  \<comment> \<open>the flag: the character before the position is one of \<open>.!?\<close>\<close>
  "split_sentences after [] = [[]]"
| "split_sentences after (c # cs) =
     (if after \<and> isspace c then [] # split_sentences False (dropWhile isspace cs)
      else (case split_sentences (terminator c) cs of
              p # ps \<Rightarrow> (c # p) # ps
            | [] \<Rightarrow> [[c]]))"
  by pat_completeness auto
termination
  by (relation "measure (\<lambda>(after, s). length s)")
     (auto simp: less_Suc_eq_le length_dropWhile_le)

section \<open>\<^verbatim>\<open>EmailSimplifier\<close>\<close>

text \<open>
  The rule tables are Python dicts, iterated in insertion order: association lists.
  An entry of \<open>patterns\<close> is itself a dict, read at the keys \<^verbatim>\<open>"search"\<close> and
  \<^verbatim>\<open>"replace"\<close>.
\<close>

record email_simplifier =
  jargon_map :: "(string \<times> string) list"
  tone_map :: "(string \<times> string) list"
  patterns :: "(string \<times> string) list list"
  kyc_documents :: "(string \<times> string) list"
  sentence_length_limit :: int

fun apply_word_map :: "string \<Rightarrow> (string \<times> string) list \<Rightarrow> error + string" where
  "apply_word_map text [] = Inr text"
| "apply_word_map text ((raw, simple) # mapping) =
     (case re_sub True raw simple text of
        Inl e \<Rightarrow> Inl e
      | Inr text' \<Rightarrow> apply_word_map text' mapping)"

fun apply_patterns :: "string \<Rightarrow> (string \<times> string) list list \<Rightarrow> error + string" where
  "apply_patterns text [] = Inr text"
| "apply_patterns text (p # ps) =
     (case map_of p ''search'' of
        None \<Rightarrow> Inl KeyError
      | Some search \<Rightarrow>
          (case map_of p ''replace'' of
             None \<Rightarrow> Inl KeyError
           | Some replace \<Rightarrow>
               (case re_sub False search replace text of
                  Inl e \<Rightarrow> Inl e
                | Inr text' \<Rightarrow> apply_patterns text' ps)))"

definition apply_kyc_doc_rules :: "email_simplifier \<Rightarrow> string \<Rightarrow> error + string" where
  "apply_kyc_doc_rules self text = apply_word_map text (kyc_documents self)"

text \<open>The body of the loop of \<^verbatim>\<open>_rewrite_sentences\<close>: what one candidate appends.\<close>

definition rewrite_sentence :: "email_simplifier \<Rightarrow> string \<Rightarrow> string list" where
  "rewrite_sentence self s0 =
     (let s = strip s0 in
      if s = [] then []
      else if int (length (split_ws [] s)) > sentence_length_limit self \<and> CHR '','' \<in> set s then
        (let parts = map strip (split_on (CHR '','') s)
         in (hd parts @ ''.'') #
            (if length parts > 1 then [join '', '' (tl parts) @ ''.''] else []))
      else [if endswith_any s ''.?!'' then s else s @ ''.''])"

definition rewrite_sentences :: "email_simplifier \<Rightarrow> string \<Rightarrow> string" where
  "rewrite_sentences self text =
     join '' '' (concat (map (rewrite_sentence self) (split_sentences False text)))"

definition simplify_text :: "email_simplifier \<Rightarrow> string \<Rightarrow> error + string" where
  "simplify_text self text =
     (if text = [] then Inr text
      else
        (case apply_word_map (normalise_ws text) (jargon_map self) of
           Inl e \<Rightarrow> Inl e
         | Inr t1 \<Rightarrow>
        (case apply_word_map t1 (tone_map self) of
           Inl e \<Rightarrow> Inl e
         | Inr t2 \<Rightarrow>
        (case apply_patterns t2 (patterns self) of
           Inl e \<Rightarrow> Inl e
         | Inr t3 \<Rightarrow>
        (case apply_kyc_doc_rules self t3 of
           Inl e \<Rightarrow> Inl e
         | Inr t4 \<Rightarrow> Inr (normalise_ws (rewrite_sentences self t4)))))))"

subsection \<open>The methods as computations on the object\<close>

text \<open>
  The methods of \<^verbatim>\<open>EmailSimplifier\<close> as computations on the object: the state is the
  record of the attributes of \<^verbatim>\<open>self\<close>, an attribute is read from the state where the
  source reads it, and every call returns the state it leaves together with its result
  (a string, or the exception it raises). \<^verbatim>\<open>re.sub\<close>, \<^verbatim>\<open>re.split\<close> and the \<^verbatim>\<open>str\<close>
  methods are functions of their arguments.
\<close>

definition attr :: "(email_simplifier \<Rightarrow> 'a) \<Rightarrow> (email_simplifier, 'a) state" where
  \<comment> \<open>reading \<^verbatim>\<open>self.a\<close>\<close>
  "attr a = State_Monad.bind State_Monad.get (\<lambda>self. State_Monad.return (a self))"

definition returning ::
  "(email_simplifier, error + 'a) state \<Rightarrow> ('a \<Rightarrow> (email_simplifier, error + 'b) state)
     \<Rightarrow> (email_simplifier, error + 'b) state" where
  \<comment> \<open>a call and what follows it: an exception of the call ends the method\<close>
  "returning call rest =
     State_Monad.bind call
       (\<lambda>r. case r of Inl e \<Rightarrow> State_Monad.return (Inl e) | Inr v \<Rightarrow> rest v)"

fun apply_word_map_st ::
  "string \<Rightarrow> (string \<times> string) list \<Rightarrow> (email_simplifier, error + string) state" where
  "apply_word_map_st text [] = State_Monad.return (Inr text)"
| "apply_word_map_st text ((raw, simple) # mapping) =
     (case re_sub True raw simple text of
        Inl e \<Rightarrow> State_Monad.return (Inl e)
      | Inr text' \<Rightarrow> apply_word_map_st text' mapping)"

fun apply_patterns_st ::
  "string \<Rightarrow> (string \<times> string) list list \<Rightarrow> (email_simplifier, error + string) state" where
  "apply_patterns_st text [] = State_Monad.return (Inr text)"
| "apply_patterns_st text (p # ps) =
     (case map_of p ''search'' of
        None \<Rightarrow> State_Monad.return (Inl KeyError)
      | Some search \<Rightarrow>
          (case map_of p ''replace'' of
             None \<Rightarrow> State_Monad.return (Inl KeyError)
           | Some replace \<Rightarrow>
               (case re_sub False search replace text of
                  Inl e \<Rightarrow> State_Monad.return (Inl e)
                | Inr text' \<Rightarrow> apply_patterns_st text' ps)))"

definition apply_kyc_doc_rules_st :: "string \<Rightarrow> (email_simplifier, error + string) state" where
  "apply_kyc_doc_rules_st text =
     State_Monad.bind (attr kyc_documents) (\<lambda>documents. apply_word_map_st text documents)"

text \<open>
  The loop of \<^verbatim>\<open>_rewrite_sentences\<close>, which reads \<^verbatim>\<open>self.sentence_length_limit\<close> at
  every candidate; \<open>cleaned\<close> is the list built so far.
\<close>

fun rewrite_loop_st :: "string list \<Rightarrow> string list \<Rightarrow> (email_simplifier, string list) state" where
  "rewrite_loop_st cleaned [] = State_Monad.return cleaned"
| "rewrite_loop_st cleaned (s # sentences) =
     State_Monad.bind State_Monad.get
       (\<lambda>self. rewrite_loop_st (cleaned @ rewrite_sentence self s) sentences)"

definition rewrite_sentences_st :: "string \<Rightarrow> (email_simplifier, string) state" where
  "rewrite_sentences_st text =
     State_Monad.bind (rewrite_loop_st [] (split_sentences False text))
       (\<lambda>cleaned. State_Monad.return (join '' '' cleaned))"

definition simplify_text_st :: "string \<Rightarrow> (email_simplifier, error + string) state" where
  "simplify_text_st text =
     (if text = [] then State_Monad.return (Inr text)
      else
        State_Monad.bind (attr jargon_map) (\<lambda>jargon.
        returning (apply_word_map_st (normalise_ws text) jargon) (\<lambda>t1.
        State_Monad.bind (attr tone_map) (\<lambda>tone.
        returning (apply_word_map_st t1 tone) (\<lambda>t2.
        State_Monad.bind (attr patterns) (\<lambda>ps.
        returning (apply_patterns_st t2 ps) (\<lambda>t3.
        returning (apply_kyc_doc_rules_st t3) (\<lambda>t4.
        State_Monad.bind (rewrite_sentences_st t4) (\<lambda>t5.
        State_Monad.return (Inr (normalise_ws t5)))))))))))"

section \<open>\<^verbatim>\<open>JsonSimplifier\<close>\<close>

text \<open>
  What \<^verbatim>\<open>json.load\<close> returns: \<^verbatim>\<open>None\<close>, \<^verbatim>\<open>bool\<close>, \<^verbatim>\<open>int\<close>, \<^verbatim>\<open>float\<close>,
  \<^verbatim>\<open>str\<close>, \<^verbatim>\<open>list\<close> and \<^verbatim>\<open>dict\<close> (insertion-ordered, with string keys). The
  adapter only tells strings, lists and dicts from the rest.
\<close>

datatype json =
    JNull
  | JBool bool
  | JInt int
  | JFloat real
  | JString string
  | JList "json list"
  | JDict "(string \<times> json) list"

record json_simplifier =
  simplifier :: email_simplifier
  text_field :: string
  output_field :: string

definition is_container :: "json \<Rightarrow> bool" where
  "is_container v = (case v of JList _ \<Rightarrow> True | JDict _ \<Rightarrow> True | _ \<Rightarrow> False)"

text \<open>
  \<^verbatim>\<open>_simplify_entry\<close>. The assignment \<^verbatim>\<open>entry[self.output_field] = ...\<close> keeps the
  place of a key the dict already has and appends a new key: \<open>AList.update\<close>. The second
  function is the list comprehension, which stops at the first exception.
\<close>

fun simplify_entry :: "json_simplifier \<Rightarrow> json \<Rightarrow> error + json"
  and simplify_entries :: "json_simplifier \<Rightarrow> json list \<Rightarrow> error + json list" where
  "simplify_entry self (JDict entry) =
     (case map_of entry (text_field self) of
        None \<Rightarrow> Inr (JDict entry)
      | Some original \<Rightarrow>
          (case original of
             JString text \<Rightarrow>
               (case simplify_text (simplifier self) text of
                  Inl e \<Rightarrow> Inl e
                | Inr simplified \<Rightarrow>
                    Inr (JDict (AList.update (output_field self) (JString simplified) entry)))
           | _ \<Rightarrow> Inl TypeError))"
| "simplify_entry self (JList items) =
     (case simplify_entries self items of
        Inl e \<Rightarrow> Inl e
      | Inr items' \<Rightarrow> Inr (JList items'))"
| "simplify_entry self entry = Inr entry"
| "simplify_entries self [] = Inr []"
| "simplify_entries self (item # items) =
     (case simplify_entry self item of
        Inl e \<Rightarrow> Inl e
      | Inr item' \<Rightarrow>
          (case simplify_entries self items of
             Inl e \<Rightarrow> Inl e
           | Inr items' \<Rightarrow> Inr (item' # items')))"

text \<open>
  \<^verbatim>\<open>simplify_payload\<close>; the second function is the dict comprehension over
  \<^verbatim>\<open>payload.items()\<close>.
\<close>

fun simplify_payload :: "json_simplifier \<Rightarrow> json \<Rightarrow> error + json"
  and simplify_items :: "json_simplifier \<Rightarrow> (string \<times> json) list \<Rightarrow> error + (string \<times> json) list" where
  "simplify_payload self (JList payload) =
     (case simplify_entries self payload of
        Inl e \<Rightarrow> Inl e
      | Inr entries \<Rightarrow> Inr (JList entries))"
| "simplify_payload self (JDict payload) =
     (case simplify_items self payload of
        Inl e \<Rightarrow> Inl e
      | Inr items \<Rightarrow> Inr (JDict items))"
| "simplify_payload self payload = Inr payload"
| "simplify_items self [] = Inr []"
| "simplify_items self ((k, v) # kvs) =
     (case (if is_container v then simplify_payload self v else Inr v) of
        Inl e \<Rightarrow> Inl e
      | Inr v' \<Rightarrow>
          (case simplify_items self kvs of
             Inl e \<Rightarrow> Inl e
           | Inr kvs' \<Rightarrow> Inr ((k, v') # kvs')))"

section \<open>Notions the properties are stated with\<close>

text \<open>The four substitution passes of \<^verbatim>\<open>simplify_text\<close>, lines 24 to 27.\<close>

definition substitute :: "email_simplifier \<Rightarrow> string \<Rightarrow> error + string" where
  "substitute self text =
     (case apply_word_map text (jargon_map self) of
        Inl e \<Rightarrow> Inl e
      | Inr t1 \<Rightarrow>
     (case apply_word_map t1 (tone_map self) of
        Inl e \<Rightarrow> Inl e
      | Inr t2 \<Rightarrow>
     (case apply_patterns t2 (patterns self) of
        Inl e \<Rightarrow> Inl e
      | Inr t3 \<Rightarrow> apply_kyc_doc_rules self t3)))"

text \<open>
  A text cut into kept pieces and matches: \<open>weave [g0, g1, g2] [m1, m2]\<close> is
  \<open>g0 @ m1 @ g1 @ m2 @ g2\<close>.
\<close>

fun weave :: "string list \<Rightarrow> string list \<Rightarrow> string" where
  "weave (g # gs) (m # ms) = g @ m @ weave gs ms"
| "weave (g # gs) [] = g"
| "weave [] ms = []"

fun ci_occurs :: "string \<Rightarrow> string \<Rightarrow> bool" where
  \<comment> \<open>\<open>lit\<close> occurs in the text, letter case ignored\<close>
  "ci_occurs lit [] = ci_prefix lit []"
| "ci_occurs lit (c # cs) = (ci_prefix lit (c # cs) \<or> ci_occurs lit cs)"

text \<open>
  A simultaneous substitution, for comparison with \<^verbatim>\<open>_apply_word_map\<close>: every match
  is sought in the input text, at each position the first rule of the mapping that matches
  there applies, and the replacement goes to the output unread.
\<close>

fun first_match :: "(string \<times> string) list \<Rightarrow> char option \<Rightarrow> string \<Rightarrow> (string \<times> string) option" where
  "first_match [] prev rest = None"
| "first_match ((raw, simple) # mapping) prev rest =
     (if match_here True raw prev rest then Some (raw, simple)
      else first_match mapping prev rest)"

lemma first_match_length:
  "first_match mapping prev rest = Some (raw, simple) \<Longrightarrow> length raw \<le> length rest"
  by (induction mapping) (auto simp: match_here_def ci_prefix_def split: if_splits)

function simultaneous_scan :: "(string \<times> string) list \<Rightarrow> char option \<Rightarrow> string \<Rightarrow> string" where
  "simultaneous_scan mapping prev rest =
     (case first_match mapping prev rest of
        Some (raw, simple) \<Rightarrow>
          simple @
          (if raw = [] then
             (case rest of [] \<Rightarrow> [] | c # cs \<Rightarrow> c # simultaneous_scan mapping (Some c) cs)
           else simultaneous_scan mapping (Some (last (take (length raw) rest)))
                  (drop (length raw) rest))
      | None \<Rightarrow>
          (case rest of [] \<Rightarrow> [] | c # cs \<Rightarrow> c # simultaneous_scan mapping (Some c) cs))"
  by pat_completeness auto
termination
  by (relation "measure (\<lambda>(mapping, prev, rest). length rest)")
     (auto dest: first_match_length simp: neq_Nil_conv)

declare simultaneous_scan.simps [simp del]

definition simultaneous_word_map :: "string \<Rightarrow> (string \<times> string) list \<Rightarrow> string" where
  "simultaneous_word_map text mapping = simultaneous_scan mapping None text"

text \<open>
  Places in a JSON value: a path of dict keys and list indices. The places that
  \<^verbatim>\<open>simplify_payload\<close> hands to \<^verbatim>\<open>_simplify_entry\<close> are those reached through dict keys
  first and then through at least one list index.
\<close>

datatype step = Key string | Index nat

fun lookup_path :: "json \<Rightarrow> step list \<Rightarrow> json option" where
  "lookup_path v [] = Some v"
| "lookup_path (JDict kvs) (Key k # p) =
     (case map_of kvs k of None \<Rightarrow> None | Some v \<Rightarrow> lookup_path v p)"
| "lookup_path (JList xs) (Index i # p) =
     (if i < length xs then lookup_path (xs ! i) p else None)"
| "lookup_path v (s # p) = None"

fun entry_path :: "step list \<Rightarrow> bool" where
  "entry_path [] = True"
| "entry_path (Index i # p) = entry_path p"
| "entry_path (Key k # p) = False"

fun template_path :: "step list \<Rightarrow> bool" where
  "template_path [] = False"
| "template_path (Key k # p) = template_path p"
| "template_path (Index i # p) = entry_path p"

text \<open>
  Texts whose only whitespace is single blanks between other characters or at the ends:
  what collapsing runs of whitespace produces.
\<close>

fun spaced :: "string \<Rightarrow> bool" where
  "spaced [] = True"
| "spaced (c # cs) =
     ((if isspace c then c = CHR '' '' \<and> (case cs of [] \<Rightarrow> True | d # _ \<Rightarrow> \<not> isspace d)
       else True)
      \<and> spaced cs)"

text \<open>
  Cuts of a text at the matches of a pattern. A position of a text is given, as in the scan
  of \<^verbatim>\<open>re.sub\<close>, by the character before it and the text from it on.
  \<open>unmatched bounded lit prev g after\<close>: the piece \<open>g\<close> stands behind the character
  \<open>prev\<close> and before the text \<open>after\<close>, and the pattern matches at no position inside
  it. \<open>cut bounded lit prev gs ms\<close>: the kept pieces \<open>gs\<close> and the matches \<open>ms\<close>,
  woven, stand behind \<open>prev\<close>; no match of the pattern starts inside a kept piece, nor at
  the end of the text; and every element of \<open>ms\<close> is a match of the pattern at its place
  (a whole-word match when \<open>bounded\<close>), as long as the pattern.
\<close>

definition last_of :: "char option \<Rightarrow> string \<Rightarrow> char option" where
  \<comment> \<open>the character before the position behind \<open>s\<close>, when \<open>prev\<close> is the one before \<open>s\<close>\<close>
  "last_of prev s = (if s = [] then prev else Some (last s))"

fun unmatched :: "bool \<Rightarrow> string \<Rightarrow> char option \<Rightarrow> string \<Rightarrow> string \<Rightarrow> bool" where
  "unmatched bounded lit prev [] after = True"
| "unmatched bounded lit prev (c # g) after =
     (\<not> match_here bounded lit prev (c # g @ after) \<and> unmatched bounded lit (Some c) g after)"

fun cut :: "bool \<Rightarrow> string \<Rightarrow> char option \<Rightarrow> string list \<Rightarrow> string list \<Rightarrow> bool" where
  "cut bounded lit prev [] ms = False"
| "cut bounded lit prev (g # gs) [] =
     (gs = [] \<and> unmatched bounded lit prev g [] \<and> \<not> match_here bounded lit (last_of prev g) [])"
| "cut bounded lit prev (g # gs) (m # ms) =
     (unmatched bounded lit prev g (m @ weave gs ms)
      \<and> match_here bounded lit (last_of prev g) (m @ weave gs ms)
      \<and> length m = length lit
      \<and> cut bounded lit (last_of (last_of prev g) m) gs ms)"

section \<open>Properties\<close>

subsection \<open>Worked examples of the pipeline\<close>

text \<open>
  Claim C1. With \<open>sentence_length_limit = 5\<close> and no substitution rule, the input
  \<open>This is a very long sentence with many words, and a second clause.\<close> is said to
  give \<open>This is a very long sentence with many words.\<close> and \<open>and a second clause.\<close>
  joined by one space. The split branch of \<^verbatim>\<open>_rewrite_sentences\<close> appends a period to
  the remainder without looking at its end, as the other branch does, so the code
  returns the remainder with two periods.
\<close>

theorem C1_split_remainder_gets_second_period:
  "simplify_text
     \<lparr>jargon_map = [], tone_map = [], patterns = [], kyc_documents = [],
      sentence_length_limit = 5\<rparr>
     ''This is a very long sentence with many words, and a second clause.''
   = Inr ''This is a very long sentence with many words. and a second clause..''"
  by code_simp

text \<open>
  Claim C4. With \<open>jargon_map = {"id": "identity"}\<close> and the other tables empty,
  \<open>identification id\<close> becomes \<open>identification identity.\<close>, whatever the sentence
  length limit: the \<open>id\<close> inside \<open>identification\<close> stays, the word \<open>id\<close> is
  replaced, and a period is appended.
\<close>

theorem C4_whole_word_boundary:
  "simplify_text
     \<lparr>jargon_map = [(''id'', ''identity'')], tone_map = [], patterns = [],
      kyc_documents = [], sentence_length_limit = limit\<rparr>
     ''identification id''
   = Inr ''identification identity.''"
proof -
  have 1: "normalise_ws ''identification id'' = ''identification id''"
    by code_simp
  have 2: "apply_word_map ''identification id'' [(''id'', ''identity'')]
             = Inr ''identification identity''"
    by code_simp
  have 3: "split_sentences False ''identification identity'' = [''identification identity'']"
    by code_simp
  have 4: "strip ''identification identity'' = ''identification identity''"
    by code_simp
  have 5: "endswith_any ''identification identity'' ''.?!'' = False"
    by code_simp
  have 6: "normalise_ws ''identification identity.'' = ''identification identity.''"
    by code_simp
  have 7: "CHR '','' \<notin> set ''identification identity''"
    by code_simp
  have 8: "rewrite_sentence
             \<lparr>jargon_map = [(''id'', ''identity'')], tone_map = [], patterns = [],
              kyc_documents = [], sentence_length_limit = limit\<rparr>
             ''identification identity''
           = [''identification identity.'']"
    unfolding rewrite_sentence_def 4 Let_def 5 using 7
    by (simp only: if_False simp_thms list.distinct append.simps)
  show ?thesis
    unfolding simplify_text_def apply_kyc_doc_rules_def rewrite_sentences_def
    by (simp only: 1 2 3 6 8 email_simplifier.simps apply_word_map.simps(1)
          apply_patterns.simps(1) sum.case list.map concat.simps append_Nil2 join.simps
          if_False list.distinct)
qed

subsection \<open>Whitespace normalisation\<close>

lemma collapse_ws_head:
  "xs = [] \<or> \<not> isspace (hd xs) \<Longrightarrow>
   (case collapse_ws xs of [] \<Rightarrow> True | d # _ \<Rightarrow> \<not> isspace d)"
  by (cases xs) auto

lemma dropWhile_head: "dropWhile P xs = [] \<or> \<not> P (hd (dropWhile P xs))"
  using hd_dropWhile by blast

lemma spaced_collapse_ws: "spaced (collapse_ws s)"
proof (induction s rule: collapse_ws.induct)
  case 1
  show ?case by simp
next
  case (2 c cs)
  show ?case
  proof (cases "isspace c")
    case True
    with 2 show ?thesis
      using collapse_ws_head [OF dropWhile_head [of isspace cs]] by simp
  next
    case False
    with 2 show ?thesis by simp
  qed
qed

lemma collapse_ws_spaced: "spaced s \<Longrightarrow> collapse_ws s = s"
proof (induction s rule: collapse_ws.induct)
  case 1
  show ?case by simp
next
  case (2 c cs)
  show ?case
  proof (cases "isspace c")
    case True
    with 2(3) have c: "c = CHR '' ''" and h: "cs = [] \<or> \<not> isspace (hd cs)" and s: "spaced cs"
      by (auto split: list.splits)
    from h have d: "dropWhile isspace cs = cs"
      by (simp add: dropWhile_eq_self_iff)
    from 2(1) [OF True] s d have "collapse_ws cs = cs" by simp
    with True c d show ?thesis by simp
  next
    case False
    with 2 show ?thesis by simp
  qed
qed

lemma spaced_append: "spaced (a @ b) \<Longrightarrow> spaced a \<and> spaced b"
proof (induction a)
  case Nil
  then show ?case by simp
next
  case (Cons c a)
  then show ?case by (cases a) (auto split: if_splits)
qed

text \<open>\<open>strip\<close> cuts a text out of the middle of its argument.\<close>

lemma strip_middle: "\<exists>a b. s = a @ strip s @ b"
proof -
  let ?t = "dropWhile isspace s"
  have "rev ?t = takeWhile isspace (rev ?t) @ dropWhile isspace (rev ?t)" by simp
  then have "?t = strip s @ rev (takeWhile isspace (rev ?t))"
    unfolding strip_def by (metis rev_append rev_rev_ident)
  moreover have "s = takeWhile isspace s @ ?t" by simp
  ultimately show ?thesis by metis
qed

lemma spaced_strip: "spaced s \<Longrightarrow> spaced (strip s)"
  using strip_middle [of s] spaced_append by metis

lemma strip_head: "strip s = [] \<or> \<not> isspace (hd (strip s))"
proof (cases "strip s = []")
  case True
  then show ?thesis by simp
next
  case False
  let ?t = "dropWhile isspace s"
  obtain b where t: "?t = strip s @ b"
    unfolding strip_def by (metis rev_append rev_rev_ident takeWhile_dropWhile_id)
  with False have "hd ?t = hd (strip s)" and "?t \<noteq> []" by auto
  then show ?thesis using hd_dropWhile [of isspace s] by metis
qed

lemma strip_strip: "strip (strip s) = strip s"
proof -
  have "dropWhile isspace (strip s) = strip s"
    using strip_head [of s] by (simp add: dropWhile_eq_self_iff)
  then have "strip (strip s) = rev (dropWhile isspace (rev (strip s)))"
    by (simp add: strip_def)
  also have "\<dots> = strip s" by (simp add: strip_def)
  finally show ?thesis .
qed

text \<open>
  Claim C9. Whitespace normalisation, \<^verbatim>\<open>re.sub(r"\s+", " ", text).strip()\<close>, is
  idempotent: normalising a normalised text changes nothing.
\<close>

theorem C9_normalise_ws_idempotent: "normalise_ws (normalise_ws s) = normalise_ws s"
  unfolding normalise_ws_def
  by (simp add: collapse_ws_spaced spaced_strip spaced_collapse_ws strip_strip)

subsection \<open>Determinism\<close>

text \<open>
  No method of \<^verbatim>\<open>EmailSimplifier\<close> that \<^verbatim>\<open>simplify_text\<close> runs assigns an attribute:
  each leaves the object as it found it, and returns what the function of the rule set
  and the text defined above returns.
\<close>

lemma run_attr: "run_state (attr a) self = (a self, self)"
  by (simp add: attr_def)

lemma run_apply_word_map_st:
  "run_state (apply_word_map_st s mapping) self = (apply_word_map s mapping, self)"
  by (induction s mapping rule: apply_word_map_st.induct) (auto split: sum.splits)

lemma run_apply_patterns_st:
  "run_state (apply_patterns_st s ps) self = (apply_patterns s ps, self)"
  by (induction s ps rule: apply_patterns_st.induct) (auto split: sum.splits option.splits)

lemma run_apply_kyc_doc_rules_st:
  "run_state (apply_kyc_doc_rules_st s) self = (apply_kyc_doc_rules self s, self)"
  by (simp add: apply_kyc_doc_rules_st_def apply_kyc_doc_rules_def run_attr
        run_apply_word_map_st)

lemma run_rewrite_loop_st:
  "run_state (rewrite_loop_st cleaned ss) self
     = (cleaned @ concat (map (rewrite_sentence self) ss), self)"
  by (induction ss arbitrary: cleaned) simp_all

lemma run_rewrite_sentences_st:
  "run_state (rewrite_sentences_st s) self = (rewrite_sentences self s, self)"
  by (simp add: rewrite_sentences_st_def rewrite_sentences_def run_rewrite_loop_st)

lemma run_simplify_text_st:
  "run_state (simplify_text_st s) self = (simplify_text self s, self)"
  by (simp add: simplify_text_st_def simplify_text_def returning_def run_attr
        run_apply_word_map_st run_apply_patterns_st run_apply_kyc_doc_rules_st
        run_rewrite_sentences_st split: sum.splits)

text \<open>
  Claim C8. \<^verbatim>\<open>simplify_text\<close> is deterministic: a call on the text \<open>s\<close> leaves the rule
  set \<open>R\<close> as it found it, so a second call with \<open>s\<close>, on the object the first call
  leaves behind, returns what the first returned (the same string, or the same exception);
  and what a call returns is the value at \<open>R\<close> and \<open>s\<close> of the function
  \<open>simplify_text\<close> of the other properties.
\<close>

theorem C8_simplify_text_deterministic:
  "snd (run_state (simplify_text_st s) R) = R
   \<and> fst (run_state (simplify_text_st s) (snd (run_state (simplify_text_st s) R)))
       = fst (run_state (simplify_text_st s) R)
   \<and> fst (run_state (simplify_text_st s) R) = simplify_text R s"
  by (simp add: run_simplify_text_st)

subsection \<open>Sentence rewriting\<close>

text \<open>
  Claim C5. A sentence candidate is split only when it has more words than
  \<open>sentence_length_limit\<close> and contains a comma: whenever what the candidate emits is not
  the candidate itself (stripped, with a period appended unless it ends in \<open>.\<close>, \<open>!\<close>
  or \<open>?\<close>), both conditions hold; a candidate without a comma is emitted intact in
  that way, however long it is; and with the limit 3, \<open>This sentence has no commas at all\<close>
  comes out as that one sentence with a period.
\<close>

theorem C5_split_only_when_long_and_comma:
  "(rewrite_sentence self c \<noteq>
      (if strip c = [] then []
       else [if endswith_any (strip c) ''.?!'' then strip c else strip c @ ''.''])
    \<longrightarrow> int (length (split_ws [] (strip c))) > sentence_length_limit self
        \<and> CHR '','' \<in> set (strip c))
   \<and> (strip c \<noteq> [] \<and> CHR '','' \<notin> set (strip c)
        \<longrightarrow> rewrite_sentence self c =
              [if endswith_any (strip c) ''.?!'' then strip c else strip c @ ''.''])
   \<and> simplify_text
         \<lparr>jargon_map = [], tone_map = [], patterns = [], kyc_documents = [],
          sentence_length_limit = 3\<rparr>
         ''This sentence has no commas at all''
       = Inr ''This sentence has no commas at all.''"
proof -
  have ex: "simplify_text
         \<lparr>jargon_map = [], tone_map = [], patterns = [], kyc_documents = [],
          sentence_length_limit = 3\<rparr>
         ''This sentence has no commas at all''
       = Inr ''This sentence has no commas at all.''"
    by code_simp
  show ?thesis
    unfolding rewrite_sentence_def Let_def using ex by auto
qed

text \<open>
  The witness: the long sentence without comma, over the limit 3 and kept in one piece,
  and \<open>a b, c\<close> under the limit 1, which is split and indeed is long and has a comma.
\<close>

theorem C5_witness:
  "strip ''This sentence has no commas at all'' \<noteq> []
   \<and> CHR '','' \<notin> set (strip ''This sentence has no commas at all'')
   \<and> int (length (split_ws [] (strip ''This sentence has no commas at all''))) > 3
   \<and> rewrite_sentence
         \<lparr>jargon_map = [], tone_map = [], patterns = [], kyc_documents = [],
          sentence_length_limit = 3\<rparr>
         ''This sentence has no commas at all''
       = [''This sentence has no commas at all.'']
   \<and> rewrite_sentence
         \<lparr>jargon_map = [], tone_map = [], patterns = [], kyc_documents = [],
          sentence_length_limit = 1\<rparr> ''a b, c''
       \<noteq> [''a b, c.'']
   \<and> int (length (split_ws [] (strip ''a b, c''))) > 1
   \<and> CHR '','' \<in> set (strip ''a b, c'')"
proof -
  let ?R = "\<lparr>jargon_map = [], tone_map = [], patterns = [], kyc_documents = [],
          sentence_length_limit = 3\<rparr>"
  let ?R1 = "\<lparr>jargon_map = [], tone_map = [], patterns = [], kyc_documents = [],
          sentence_length_limit = 1\<rparr>"
  let ?c = "''This sentence has no commas at all''"
  have a: "strip ?c \<noteq> []" by code_simp
  have b: "CHR '','' \<notin> set (strip ?c)" by code_simp
  have l: "int (length (split_ws [] (strip ?c))) > 3" by code_simp
  have e: "[if endswith_any (strip ?c) ''.?!'' then strip ?c else strip ?c @ ''.'']
             = [''This sentence has no commas at all.'']"
    by code_simp
  have r: "rewrite_sentence ?R ?c = [''This sentence has no commas at all.'']"
    using C5_split_only_when_long_and_comma [of ?R ?c] a b e by metis
  have n: "rewrite_sentence ?R1 ''a b, c'' \<noteq> [''a b, c.'']" by code_simp
  have n': "(if strip ''a b, c'' = [] then []
             else [if endswith_any (strip ''a b, c'') ''.?!'' then strip ''a b, c''
                   else strip ''a b, c'' @ ''.'']) = [''a b, c.'']"
    by code_simp
  have s: "sentence_length_limit ?R1 = 1" by simp
  have "int (length (split_ws [] (strip ''a b, c''))) > 1 \<and> CHR '','' \<in> set (strip ''a b, c'')"
    using C5_split_only_when_long_and_comma [of ?R1 "''a b, c''"] n n' s by metis
  with a b l r n show ?thesis by blast
qed

subsection \<open>Entries of a JSON document\<close>

text \<open>
  Claim C7. The claim says that an entry with a string under the text field gets the
  simplified text under the output field while the original text field keeps its value.
  Line 56 assigns the output field whatever its name is: in an adapter set up with the
  text field as its output field, the simplified text takes the place of the original.
\<close>

theorem C7_counterexample:
  "simplify_entry
     \<lparr>simplifier = \<lparr>jargon_map = [], tone_map = [], patterns = [], kyc_documents = [],
                    sentence_length_limit = 22\<rparr>,
      text_field = ''text'', output_field = ''text''\<rparr>
     (JDict [(''text'', JString ''KYC form required'')])
     = Inr (JDict [(''text'', JString ''KYC form required.'')])
   \<and> JString ''KYC form required.'' \<noteq> JString ''KYC form required''"
  by code_simp

text \<open>
  Claim C7, amended. For a dict entry that has the text field: a value that is not a string
  raises \<^verbatim>\<open>TypeError\<close>; for a string whose simplification returns, the entry comes back
  with the simplified text under the output field and every other key as it was, the text
  field among them when it is not the output field itself (when it is, it holds the
  simplified text). So \<open>[{"text": "KYC form required."}]\<close> becomes
  \<open>[{"text": "KYC form required.", "simplified_text": simplified}]\<close>.
\<close>

theorem C7_entry_type_error_or_output_field:
  "(map_of entry (text_field self) = Some original \<longrightarrow>
     ((\<forall>text. original \<noteq> JString text) \<longrightarrow> simplify_entry self (JDict entry) = Inl TypeError)
     \<and> (\<forall>text simplified.
           original = JString text \<and> simplify_text (simplifier self) text = Inr simplified \<longrightarrow>
           (\<exists>entry'. simplify_entry self (JDict entry) = Inr (JDict entry')
              \<and> map_of entry' (output_field self) = Some (JString simplified)
              \<and> (\<forall>k. k \<noteq> output_field self \<longrightarrow> map_of entry' k = map_of entry k)
              \<and> (text_field self \<noteq> output_field self \<longrightarrow>
                   map_of entry' (text_field self) = Some (JString text)))))
   \<and> (text_field self = ''text'' \<and> output_field self = ''simplified_text''
        \<and> simplify_text (simplifier self) ''KYC form required.'' = Inr simplified0 \<longrightarrow>
        simplify_payload self (JList [JDict [(''text'', JString ''KYC form required.'')]])
          = Inr (JList [JDict [(''text'', JString ''KYC form required.''),
                               (''simplified_text'', JString simplified0)]]))"
proof -
  have "map_of entry (text_field self) = Some original \<Longrightarrow>
     ((\<forall>text. original \<noteq> JString text) \<longrightarrow> simplify_entry self (JDict entry) = Inl TypeError)
     \<and> (\<forall>text simplified.
           original = JString text \<and> simplify_text (simplifier self) text = Inr simplified \<longrightarrow>
           (\<exists>entry'. simplify_entry self (JDict entry) = Inr (JDict entry')
              \<and> map_of entry' (output_field self) = Some (JString simplified)
              \<and> (\<forall>k. k \<noteq> output_field self \<longrightarrow> map_of entry' k = map_of entry k)
              \<and> (text_field self \<noteq> output_field self \<longrightarrow>
                   map_of entry' (text_field self) = Some (JString text))))"
    by (cases original) (auto simp: update_conv')
  moreover have "text_field self = ''text'' \<and> output_field self = ''simplified_text''
        \<and> simplify_text (simplifier self) ''KYC form required.'' = Inr simplified0 \<Longrightarrow>
        simplify_payload self (JList [JDict [(''text'', JString ''KYC form required.'')]])
          = Inr (JList [JDict [(''text'', JString ''KYC form required.''),
                               (''simplified_text'', JString simplified0)]])"
    by simp
  ultimately show ?thesis by blast
qed

theorem C7_witness:
  "simplify_entry
     \<lparr>simplifier = \<lparr>jargon_map = [], tone_map = [], patterns = [], kyc_documents = [],
                    sentence_length_limit = 22\<rparr>,
      text_field = ''text'', output_field = ''simplified_text''\<rparr>
     (JDict [(''text'', JInt 3)]) = Inl TypeError
   \<and> (\<exists>entry'.
        simplify_entry
          \<lparr>simplifier = \<lparr>jargon_map = [], tone_map = [], patterns = [], kyc_documents = [],
                         sentence_length_limit = 22\<rparr>,
           text_field = ''text'', output_field = ''simplified_text''\<rparr>
          (JDict [(''text'', JString ''KYC form required.''), (''id'', JInt 7)])
          = Inr (JDict entry')
        \<and> map_of entry' ''simplified_text'' = Some (JString ''KYC form required.'')
        \<and> map_of entry' ''id'' = Some (JInt 7)
        \<and> map_of entry' ''text'' = Some (JString ''KYC form required.''))
   \<and> simplify_payload
        \<lparr>simplifier = \<lparr>jargon_map = [], tone_map = [], patterns = [], kyc_documents = [],
                       sentence_length_limit = 22\<rparr>,
         text_field = ''text'', output_field = ''simplified_text''\<rparr>
        (JList [JDict [(''text'', JString ''KYC form required.'')]])
      = Inr (JList [JDict [(''text'', JString ''KYC form required.''),
                           (''simplified_text'', JString ''KYC form required.'')]])"
proof -
  let ?R = "\<lparr>jargon_map = [], tone_map = [], patterns = [], kyc_documents = [],
             sentence_length_limit = 22\<rparr>"
  let ?J = "\<lparr>simplifier = ?R, text_field = ''text'', output_field = ''simplified_text''\<rparr>"
  let ?e = "[(''text'', JString ''KYC form required.''), (''id'', JInt 7)]"
  have s: "simplify_text (simplifier ?J) ''KYC form required.'' = Inr ''KYC form required.''"
    by code_simp
  have m1: "map_of [(''text'', JInt 3)] (text_field ?J) = Some (JInt 3)" by simp
  have t: "simplify_entry ?J (JDict [(''text'', JInt 3)]) = Inl TypeError"
    using C7_entry_type_error_or_output_field [of "[(''text'', JInt 3)]" ?J "JInt 3"] m1
    by blast
  have m2: "map_of ?e (text_field ?J) = Some (JString ''KYC form required.'')" by simp
  have "\<exists>entry'. simplify_entry ?J (JDict ?e) = Inr (JDict entry')
          \<and> map_of entry' (output_field ?J) = Some (JString ''KYC form required.'')
          \<and> (\<forall>k. k \<noteq> output_field ?J \<longrightarrow> map_of entry' k = map_of ?e k)
          \<and> (text_field ?J \<noteq> output_field ?J \<longrightarrow>
               map_of entry' (text_field ?J) = Some (JString ''KYC form required.''))"
    using C7_entry_type_error_or_output_field
            [of ?e ?J "JString ''KYC form required.''" "''KYC form required.''"] m2 s
    by blast
  then obtain entry' where e: "simplify_entry ?J (JDict ?e) = Inr (JDict entry')"
      and o: "map_of entry' (output_field ?J) = Some (JString ''KYC form required.'')"
      and k: "\<forall>k. k \<noteq> output_field ?J \<longrightarrow> map_of entry' k = map_of ?e k"
      and x: "text_field ?J \<noteq> output_field ?J \<longrightarrow>
               map_of entry' (text_field ?J) = Some (JString ''KYC form required.'')"
    by blast
  from k have i: "map_of entry' ''id'' = Some (JInt 7)" by simp
  from x have x': "map_of entry' ''text'' = Some (JString ''KYC form required.'')" by simp
  from o have o': "map_of entry' ''simplified_text'' = Some (JString ''KYC form required.'')"
    by simp
  have p: "simplify_payload ?J (JList [JDict [(''text'', JString ''KYC form required.'')]])
      = Inr (JList [JDict [(''text'', JString ''KYC form required.''),
                           (''simplified_text'', JString ''KYC form required.'')]])"
    using C7_entry_type_error_or_output_field [of _ ?J _ "''KYC form required.''"] s
    by simp
  from t e o' i x' p show ?thesis by blast
qed

subsection \<open>Substitution passes\<close>

text \<open>
  One \<^verbatim>\<open>re.sub\<close> scans its input once: the input is cut into kept pieces and matches,
  and the output is the kept pieces with each match replaced by what the template expands
  to. Without word boundaries, no kept piece contains an occurrence of a non-empty pattern.
\<close>

lemma ci_prefix_append: "ci_prefix lit xs \<Longrightarrow> ci_prefix lit (xs @ ys)"
  by (auto simp: ci_prefix_def)

lemma weave_Cons: "weave ((c # g) # gs) ms = c # weave (g # gs) ms"
  by (cases ms) auto

lemma weave_prefix: "\<exists>r. weave (g # gs) ms = g @ r"
  by (cases ms) auto

lemma parse_template_plain: "CHR 0x5C \<notin> set repl \<Longrightarrow> parse_template repl = Inr (map Lit repl)"
  by (induction repl) auto

lemma expand_template_plain: "expand_template (map Lit repl) m = repl"
  by (induction repl) (auto simp: expand_template_def)

lemma sub_scan_weave:
  "\<exists>gs ms. length gs = Suc (length ms) \<and> weave gs ms = rest
     \<and> list_all (\<lambda>m. map tolower m = map tolower lit) ms
     \<and> sub_scan bounded lit t prev rest = weave gs (map (expand_template t) ms)
     \<and> (lit \<noteq> [] \<and> \<not> bounded \<longrightarrow> list_all (\<lambda>g. \<not> ci_occurs lit g) gs)"
proof (induction bounded lit t prev rest rule: sub_scan.induct)
  case (1 bounded lit t prev rest)
  show ?case
  proof (cases "match_here bounded lit prev rest")
    case True
    note m = True
    show ?thesis
    proof (cases "lit = []")
      case True
      note e = True
      show ?thesis
      proof (cases rest)
        case Nil
        have "sub_scan bounded lit t prev rest = expand_template t []"
          using m e Nil by (simp add: sub_scan.simps)
        then have "length [[], []] = Suc (length [[]::string]) \<and> weave [[], []] [[]] = rest
            \<and> list_all (\<lambda>m. map tolower m = map tolower lit) [[]]
            \<and> sub_scan bounded lit t prev rest = weave [[], []] (map (expand_template t) [[]])
            \<and> (lit \<noteq> [] \<and> \<not> bounded \<longrightarrow> list_all (\<lambda>g. \<not> ci_occurs lit g) [[], []])"
          using e Nil by simp
        then show ?thesis by blast
      next
        case (Cons c cs)
        from "1.IH"(1) [OF m e Cons] obtain gs ms where
          h: "length gs = Suc (length ms)" "weave gs ms = cs"
             "list_all (\<lambda>m. map tolower m = map tolower lit) ms"
             "sub_scan bounded lit t (Some c) cs = weave gs (map (expand_template t) ms)"
          by blast
        from h(1) obtain g0 gr where g: "gs = g0 # gr" by (cases gs) auto
        have s: "sub_scan bounded lit t prev rest
                  = expand_template t [] @ c # sub_scan bounded lit t (Some c) cs"
          using m e Cons by (simp add: sub_scan.simps)
        have "length ([] # (c # g0) # gr) = Suc (length ([] # ms))
            \<and> weave ([] # (c # g0) # gr) ([] # ms) = rest
            \<and> list_all (\<lambda>m. map tolower m = map tolower lit) ([] # ms)
            \<and> sub_scan bounded lit t prev rest
                = weave ([] # (c # g0) # gr) (map (expand_template t) ([] # ms))
            \<and> (lit \<noteq> [] \<and> \<not> bounded \<longrightarrow>
                 list_all (\<lambda>g. \<not> ci_occurs lit g) ([] # (c # g0) # gr))"
          using h g s e Cons by (simp add: weave_Cons)
        then show ?thesis by blast
      qed
    next
      case False
      note ne = False
      let ?n = "length lit"
      from "1.IH"(2) [OF m ne] obtain gs ms where
        h: "length gs = Suc (length ms)" "weave gs ms = drop ?n rest"
           "list_all (\<lambda>m. map tolower m = map tolower lit) ms"
           "sub_scan bounded lit t (Some (last (take ?n rest))) (drop ?n rest)
              = weave gs (map (expand_template t) ms)"
           "lit \<noteq> [] \<and> \<not> bounded \<longrightarrow> list_all (\<lambda>g. \<not> ci_occurs lit g) gs"
        by blast
      have s: "sub_scan bounded lit t prev rest
                = expand_template t (take ?n rest)
                  @ sub_scan bounded lit t (Some (last (take ?n rest))) (drop ?n rest)"
        using m ne by (simp add: sub_scan.simps)
      have c: "map tolower (take ?n rest) = map tolower lit"
        using m by (simp add: match_here_def ci_prefix_def)
      have o: "\<not> ci_occurs lit []"
        using ne by (simp add: ci_prefix_def)
      have "length ([] # gs) = Suc (length (take ?n rest # ms))
          \<and> weave ([] # gs) (take ?n rest # ms) = rest
          \<and> list_all (\<lambda>m. map tolower m = map tolower lit) (take ?n rest # ms)
          \<and> sub_scan bounded lit t prev rest
              = weave ([] # gs) (map (expand_template t) (take ?n rest # ms))
          \<and> (lit \<noteq> [] \<and> \<not> bounded \<longrightarrow> list_all (\<lambda>g. \<not> ci_occurs lit g) ([] # gs))"
        using h s c o by simp
      then show ?thesis by blast
    qed
  next
    case False
    note nm = False
    show ?thesis
    proof (cases rest)
      case Nil
      have "sub_scan bounded lit t prev rest = []"
        using nm Nil by (simp add: sub_scan.simps)
      then have "length [[]] = Suc (length ([]::string list)) \<and> weave [[]] [] = rest
          \<and> list_all (\<lambda>m. map tolower m = map tolower lit) []
          \<and> sub_scan bounded lit t prev rest = weave [[]] (map (expand_template t) [])
          \<and> (lit \<noteq> [] \<and> \<not> bounded \<longrightarrow> list_all (\<lambda>g. \<not> ci_occurs lit g) [[]])"
        using Nil by (simp add: ci_prefix_def)
      then show ?thesis by blast
    next
      case (Cons c cs)
      from "1.IH"(3) [OF nm Cons] obtain gs ms where
        h: "length gs = Suc (length ms)" "weave gs ms = cs"
           "list_all (\<lambda>m. map tolower m = map tolower lit) ms"
           "sub_scan bounded lit t (Some c) cs = weave gs (map (expand_template t) ms)"
           "lit \<noteq> [] \<and> \<not> bounded \<longrightarrow> list_all (\<lambda>g. \<not> ci_occurs lit g) gs"
        by blast
      from h(1) obtain g0 gr where g: "gs = g0 # gr" by (cases gs) auto
      have s: "sub_scan bounded lit t prev rest = c # sub_scan bounded lit t (Some c) cs"
        using nm Cons by (simp add: sub_scan.simps)
      have o: "\<not> bounded \<Longrightarrow> \<not> ci_prefix lit (c # g0)"
      proof
        assume "\<not> bounded" and p: "ci_prefix lit (c # g0)"
        from weave_prefix [of g0 gr ms] h(2) g obtain r where "cs = g0 @ r" by auto
        with ci_prefix_append [OF p, of r] Cons have "ci_prefix lit rest" by simp
        with \<open>\<not> bounded\<close> nm show False by (simp add: match_here_def)
      qed
      have "length ((c # g0) # gr) = Suc (length ms)
          \<and> weave ((c # g0) # gr) ms = rest
          \<and> list_all (\<lambda>m. map tolower m = map tolower lit) ms
          \<and> sub_scan bounded lit t prev rest
              = weave ((c # g0) # gr) (map (expand_template t) ms)
          \<and> (lit \<noteq> [] \<and> \<not> bounded \<longrightarrow>
               list_all (\<lambda>g. \<not> ci_occurs lit g) ((c # g0) # gr))"
        using h g s o Cons by (auto simp: weave_Cons)
      then show ?thesis by blast
    qed
  qed
qed

lemma expand_template_plain_fun: "expand_template (map Lit repl) = (\<lambda>m. repl)"
  by (rule ext) (rule expand_template_plain)

lemma re_sub_plain:
  assumes "CHR 0x5C \<notin> set repl"
  shows "\<exists>gs ms. length gs = Suc (length ms) \<and> weave gs ms = s
     \<and> list_all (\<lambda>m. map tolower m = map tolower lit) ms
     \<and> re_sub bounded lit repl s = Inr (weave gs (map (\<lambda>m. repl) ms))
     \<and> (lit \<noteq> [] \<and> \<not> bounded \<longrightarrow> list_all (\<lambda>g. \<not> ci_occurs lit g) gs)"
proof -
  have "re_sub bounded lit repl s = Inr (sub_scan bounded lit (map Lit repl) None s)"
    using assms by (simp add: re_sub_def parse_template_plain)
  then show ?thesis
    using sub_scan_weave [of s lit bounded "map Lit repl" None]
    by (simp only: expand_template_plain_fun sum.inject)
qed

lemma bind_Inr: "(case x of Inl e \<Rightarrow> Inl e | Inr t \<Rightarrow> Inr t) = x"
  by (cases x) auto

lemma apply_word_map_append:
  "apply_word_map text (m1 @ m2)
     = (case apply_word_map text m1 of Inl e \<Rightarrow> Inl e | Inr t \<Rightarrow> apply_word_map t m2)"
  by (induction m1 arbitrary: "text") (auto split: sum.splits)

lemma apply_patterns_append:
  "apply_patterns text (ps @ qs)
     = (case apply_patterns text ps of Inl e \<Rightarrow> Inl e | Inr t \<Rightarrow> apply_patterns t qs)"
  by (induction ps arbitrary: "text") (auto split: sum.splits option.splits)

text \<open>
  With word boundaries or without, the scan of a non-empty pattern cuts the text at the
  matches of the pattern: every replaced piece is a match at its place, and no match starts
  inside a kept piece.
\<close>

lemma cut_Cons:
  "\<not> match_here bounded lit prev (c # weave (g # gs) ms) \<Longrightarrow>
   cut bounded lit (Some c) (g # gs) ms \<Longrightarrow> cut bounded lit prev ((c # g) # gs) ms"
  by (cases ms) (auto simp: last_of_def)

lemma sub_scan_cut:
  "lit \<noteq> [] \<Longrightarrow>
   \<exists>gs ms. weave gs ms = rest \<and> cut bounded lit prev gs ms
     \<and> sub_scan bounded lit t prev rest = weave gs (map (expand_template t) ms)"
proof (induction bounded lit t prev rest rule: sub_scan.induct)
  case (1 bounded lit t prev rest)
  note ne = \<open>lit \<noteq> []\<close>
  show ?case
  proof (cases "match_here bounded lit prev rest")
    case True
    note m = True
    let ?n = "length lit"
    let ?m = "take ?n rest"
    from "1.IH"(2) [OF m ne ne] obtain gs ms where
      h: "weave gs ms = drop ?n rest" "cut bounded lit (Some (last ?m)) gs ms"
         "sub_scan bounded lit t (Some (last ?m)) (drop ?n rest)
            = weave gs (map (expand_template t) ms)"
      by blast
    have s: "sub_scan bounded lit t prev rest
              = expand_template t ?m @ sub_scan bounded lit t (Some (last ?m)) (drop ?n rest)"
      using m ne by (simp add: sub_scan.simps)
    from m have l: "length ?m = ?n" by (simp add: match_here_def ci_prefix_def)
    with ne have n: "?m \<noteq> []" by auto
    have r: "?m @ weave gs ms = rest" using h(1) by simp
    have "weave ([] # gs) (?m # ms) = rest \<and> cut bounded lit prev ([] # gs) (?m # ms)
        \<and> sub_scan bounded lit t prev rest
            = weave ([] # gs) (map (expand_template t) (?m # ms))"
      using h s m l n r by (simp add: last_of_def)
    then show ?thesis by blast
  next
    case False
    note nm = False
    show ?thesis
    proof (cases rest)
      case Nil
      have "sub_scan bounded lit t prev rest = []"
        using nm Nil by (simp add: sub_scan.simps)
      then have "weave [[]] [] = rest \<and> cut bounded lit prev [[]] []
          \<and> sub_scan bounded lit t prev rest = weave [[]] (map (expand_template t) [])"
        using nm Nil by (simp add: last_of_def)
      then show ?thesis by blast
    next
      case (Cons c cs)
      from "1.IH"(3) [OF nm Cons ne] obtain gs ms where
        h: "weave gs ms = cs" "cut bounded lit (Some c) gs ms"
           "sub_scan bounded lit t (Some c) cs = weave gs (map (expand_template t) ms)"
        by blast
      from h(2) obtain g0 gr where g: "gs = g0 # gr" by (cases gs) auto
      have s: "sub_scan bounded lit t prev rest = c # sub_scan bounded lit t (Some c) cs"
        using nm Cons by (simp add: sub_scan.simps)
      have k: "cut bounded lit prev ((c # g0) # gr) ms"
        using nm Cons h(1,2) g by (intro cut_Cons) simp_all
      have "weave ((c # g0) # gr) ms = rest \<and> cut bounded lit prev ((c # g0) # gr) ms
          \<and> sub_scan bounded lit t prev rest
              = weave ((c # g0) # gr) (map (expand_template t) ms)"
        using h g s k Cons by (simp add: weave_Cons)
      then show ?thesis by blast
    qed
  qed
qed

text \<open>Conversely, the scan replaces the matches of every such cut, and nothing else.\<close>

lemma sub_scan_unmatched:
  "unmatched bounded lit prev g after \<Longrightarrow>
   sub_scan bounded lit t prev (g @ after) = g @ sub_scan bounded lit t (last_of prev g) after"
proof (induction g arbitrary: prev)
  case Nil
  show ?case by (simp add: last_of_def)
next
  case (Cons c g)
  from Cons.prems have n: "\<not> match_here bounded lit prev (c # g @ after)"
      and u: "unmatched bounded lit (Some c) g after"
    by simp_all
  from n have "sub_scan bounded lit t prev ((c # g) @ after)
                 = c # sub_scan bounded lit t (Some c) (g @ after)"
    by (simp add: sub_scan.simps)
  with Cons.IH [OF u] show ?case by (simp add: last_of_def)
qed

lemma sub_scan_of_cut:
  "cut bounded lit prev gs ms \<Longrightarrow> lit \<noteq> [] \<Longrightarrow>
   sub_scan bounded lit t prev (weave gs ms) = weave gs (map (expand_template t) ms)"
proof (induction bounded lit prev gs ms rule: cut.induct)
  case (1 bounded lit prev ms)
  then show ?case by simp
next
  case (2 bounded lit prev g gs)
  from "2.prems" have e: "gs = []" and u: "unmatched bounded lit prev g []"
      and n: "\<not> match_here bounded lit (last_of prev g) []"
    by simp_all
  from n have "sub_scan bounded lit t (last_of prev g) [] = []"
    by (simp add: sub_scan.simps)
  with sub_scan_unmatched [OF u, of t] e show ?case by simp
next
  case (3 bounded lit prev g gs m ms)
  let ?w = "weave gs ms"
  let ?p = "last_of prev g"
  from "3.prems" have u: "unmatched bounded lit prev g (m @ ?w)"
      and h: "match_here bounded lit ?p (m @ ?w)"
      and l: "length m = length lit"
      and k: "cut bounded lit (last_of ?p m) gs ms"
      and ne: "lit \<noteq> []"
    by simp_all
  from l ne have m: "m \<noteq> []" by auto
  from l have tk: "take (length lit) (m @ ?w) = m" and dr: "drop (length lit) (m @ ?w) = ?w"
    by simp_all
  from m have lo: "last_of ?p m = Some (last m)" by (simp add: last_of_def)
  have "sub_scan bounded lit t ?p (m @ ?w)
          = expand_template t m @ sub_scan bounded lit t (Some (last m)) ?w"
    using h ne tk dr by (subst sub_scan.simps) simp
  with "3.IH" [OF k ne] lo sub_scan_unmatched [OF u, of t] show ?case by simp
qed

lemma re_sub_of_cut:
  assumes "lit \<noteq> []" and "weave gs ms = s" and "cut bounded lit None gs ms"
  shows "(\<forall>t. parse_template repl = Inr t \<longrightarrow>
            re_sub bounded lit repl s = Inr (weave gs (map (expand_template t) ms)))
     \<and> (CHR 0x5C \<notin> set repl \<longrightarrow>
            re_sub bounded lit repl s = Inr (weave gs (map (\<lambda>m. repl) ms)))"
proof -
  have a: "re_sub bounded lit repl s = Inr (weave gs (map (expand_template t) ms))"
    if "parse_template repl = Inr t" for t
    using that sub_scan_of_cut [OF assms(3) assms(1), of t] assms(2) by (simp add: re_sub_def)
  have b: "re_sub bounded lit repl s = Inr (weave gs (map (\<lambda>m. repl) ms))"
    if "CHR 0x5C \<notin> set repl"
    using a [OF parse_template_plain [OF that]] by (simp only: expand_template_plain_fun)
  from a b show ?thesis by blast
qed

lemma cut_exists:
  "lit \<noteq> [] \<Longrightarrow> \<exists>gs ms. weave gs ms = s \<and> cut bounded lit None gs ms"
  using sub_scan_cut [of lit s bounded None "[]"] by blast

text \<open>
  Claim C2. The claim says that within one pass (\<^verbatim>\<open>_apply_word_map\<close>) the text a rule
  inserts is not matched by the later rules of the pass, so that the pass is a
  simultaneous substitution. The loop of \<^verbatim>\<open>_apply_word_map\<close> hands each rule the whole
  text the rules before it left: with the mapping \<open>{"a": "b", "b": "c"}\<close> the text
  \<open>a\<close> becomes \<open>c\<close>, where a simultaneous substitution gives \<open>b\<close>.
\<close>

theorem C2_counterexample:
  "apply_word_map ''a'' [(''a'', ''b''), (''b'', ''c'')] = Inr ''c''
   \<and> simultaneous_word_map ''a'' [(''a'', ''b''), (''b'', ''c'')] = ''b''"
  by code_simp

text \<open>
  Claim C2, amended. Within one pass the rules apply one after another, in mapping order,
  each to the whole text left by the rules before it, text inserted by those rules
  included. Only within a single rule is inserted text not scanned again: a rule with a
  non-empty \<open>raw\<close> cuts its input, from left to right, into kept pieces and whole-word
  matches of \<open>raw\<close> (letter case ignored), with no whole-word match of \<open>raw\<close> starting
  inside a kept piece; there is such a cut, and for every such cut the output of the rule
  is the kept pieces with each match replaced by what the replacement template \<open>simple\<close>
  expands to: by \<open>simple\<close> as it stands when \<open>simple\<close> has no backslash.
\<close>

theorem C2_rules_apply_in_sequence:
  "apply_word_map text (m1 @ m2)
     = (case apply_word_map text m1 of Inl e \<Rightarrow> Inl e | Inr t \<Rightarrow> apply_word_map t m2)
   \<and> (raw \<noteq> [] \<longrightarrow>
        (\<exists>gs ms. weave gs ms = text \<and> cut True raw None gs ms)
        \<and> (\<forall>gs ms. weave gs ms = text \<and> cut True raw None gs ms \<longrightarrow>
              (\<forall>t. parse_template simple = Inr t \<longrightarrow>
                 apply_word_map text [(raw, simple)]
                   = Inr (weave gs (map (expand_template t) ms)))
              \<and> (CHR 0x5C \<notin> set simple \<longrightarrow>
                 apply_word_map text [(raw, simple)]
                   = Inr (weave gs (map (\<lambda>m. simple) ms)))))"
proof -
  have one: "apply_word_map s [(raw, simple)] = re_sub True raw simple s" for s
    by (cases "re_sub True raw simple s") simp_all
  have a: "raw \<noteq> [] \<Longrightarrow> \<exists>gs ms. weave gs ms = text \<and> cut True raw None gs ms"
    by (rule cut_exists)
  have b: "(\<forall>t. parse_template simple = Inr t \<longrightarrow>
                 apply_word_map text [(raw, simple)]
                   = Inr (weave gs (map (expand_template t) ms)))
           \<and> (CHR 0x5C \<notin> set simple \<longrightarrow>
                 apply_word_map text [(raw, simple)]
                   = Inr (weave gs (map (\<lambda>m. simple) ms)))"
    if "raw \<noteq> []" "weave gs ms = text" "cut True raw None gs ms" for gs ms
    unfolding one using that by (rule re_sub_of_cut)
  from a b show ?thesis using apply_word_map_append by blast
qed

text \<open>
  The witness: \<open>id\<close> replaced by \<open>identity\<close> in \<open>identification id\<close>. The cut keeps
  \<open>identification \<close>, where \<open>id\<close> occurs but not as a whole word, and has the one match
  \<open>id\<close> at the end. And the two rules \<open>a\<close> to \<open>b\<close>, \<open>b\<close> to \<open>c\<close>, one after the
  other, on \<open>a c a\<close>.
\<close>

theorem C2_witness:
  "''id'' \<noteq> [] \<and> CHR 0x5C \<notin> set ''identity''
   \<and> weave [''identification '', ''''] [''id''] = ''identification id''
   \<and> cut True ''id'' None [''identification '', ''''] [''id'']
   \<and> apply_word_map ''identification id'' [(''id'', ''identity'')]
       = Inr (weave [''identification '', ''''] (map (\<lambda>m. ''identity'') [''id'']))
   \<and> weave [''identification '', ''''] (map (\<lambda>m. ''identity'') [''id''])
       = ''identification identity''
   \<and> apply_word_map ''a c a'' ([(''a'', ''b'')] @ [(''b'', ''c'')]) = Inr ''c c c''"
proof -
  have a: "CHR 0x5C \<notin> set ''identity''" by code_simp
  have n: "''id'' \<noteq> []" by simp
  have w: "weave [''identification '', ''''] [''id''] = ''identification id''" by simp
  have k: "cut True ''id'' None [''identification '', ''''] [''id'']" by code_simp
  have o: "apply_word_map ''identification id'' [(''id'', ''identity'')]
       = Inr (weave [''identification '', ''''] (map (\<lambda>m. ''identity'') [''id'']))"
    using C2_rules_apply_in_sequence
            [of "''identification id''" "[]" "[]" "''id''" "''identity''"] a n w k
    by blast
  have v: "weave [''identification '', ''''] (map (\<lambda>m. ''identity'') [''id''])
       = ''identification identity''"
    by simp
  have b: "apply_word_map ''a c a'' [(''a'', ''b'')] = Inr ''b c b''" by code_simp
  have c: "apply_word_map ''b c b'' [(''b'', ''c'')] = Inr ''c c c''" by code_simp
  have d: "apply_word_map ''a c a'' ([(''a'', ''b'')] @ [(''b'', ''c'')]) = Inr ''c c c''"
    using C2_rules_apply_in_sequence [of "''a c a''" "[(''a'', ''b'')]" "[(''b'', ''c'')]"] b c
    by (simp only: sum.case)
  from a n w k o v d show ?thesis by blast
qed

text \<open>
  Claim C6. The claim says that the pattern pass puts \<open>replace\<close> itself in the place of
  every occurrence of \<open>search\<close>. \<^verbatim>\<open>re.sub\<close> reads \<open>replace\<close> as a replacement template:
  with \<open>replace\<close> made of two backslashes, \<open>x\<close> is replaced by one backslash.
\<close>

theorem C6_counterexample:
  "apply_patterns ''x'' [[(''search'', ''x''), (''replace'', [CHR 0x5C, CHR 0x5C])]]
     = Inr [CHR 0x5C]
   \<and> apply_patterns ''x'' [[(''search'', ''x''), (''replace'', [CHR 0x5C, CHR 0x5C])]]
     \<noteq> Inr [CHR 0x5C, CHR 0x5C]"
  by code_simp

text \<open>
  Claim C6, amended. The pattern pass applies the pairs in list order, each to the text the
  pairs before it left. A pair whose \<open>replace\<close> has no backslash cuts the text, in one
  scan from the left, into kept pieces and occurrences of \<open>search\<close> as a literal
  substring (letter case ignored, no word boundary), puts \<open>replace\<close> in the place of
  each of them, and leaves no occurrence of a non-empty \<open>search\<close> in a kept piece. With
  \<open>as soon as possible\<close> to be replaced by \<open>right away\<close>,
  \<open>Please respond as soon as possible.\<close> becomes \<open>Please respond right away.\<close>.
\<close>

theorem C6_pattern_pass_literal_search:
  "apply_patterns text (ps @ qs)
     = (case apply_patterns text ps of Inl e \<Rightarrow> Inl e | Inr t \<Rightarrow> apply_patterns t qs)
   \<and> (CHR 0x5C \<notin> set replace \<longrightarrow>
        (\<exists>gs ms. length gs = Suc (length ms) \<and> weave gs ms = text
           \<and> list_all (\<lambda>m. map tolower m = map tolower search) ms
           \<and> (search \<noteq> [] \<longrightarrow> list_all (\<lambda>g. \<not> ci_occurs search g) gs)
           \<and> apply_patterns text [[(''search'', search), (''replace'', replace)]]
               = Inr (weave gs (map (\<lambda>m. replace) ms))))
   \<and> simplify_text
        \<lparr>jargon_map = [], tone_map = [],
         patterns = [[(''search'', ''as soon as possible''), (''replace'', ''right away'')]],
         kyc_documents = [], sentence_length_limit = 22\<rparr>
        ''Please respond as soon as possible.''
      = Inr ''Please respond right away.''"
proof -
  have one: "apply_patterns s [[(''search'', search), (''replace'', replace)]]
               = re_sub False search replace s" for s
    by (cases "re_sub False search replace s") simp_all
  have "CHR 0x5C \<notin> set replace \<Longrightarrow>
        \<exists>gs ms. length gs = Suc (length ms) \<and> weave gs ms = text
           \<and> list_all (\<lambda>m. map tolower m = map tolower search) ms
           \<and> (search \<noteq> [] \<longrightarrow> list_all (\<lambda>g. \<not> ci_occurs search g) gs)
           \<and> apply_patterns text [[(''search'', search), (''replace'', replace)]]
               = Inr (weave gs (map (\<lambda>m. replace) ms))"
    using re_sub_plain [of replace "text" search False]
    unfolding one by blast
  moreover have "simplify_text
        \<lparr>jargon_map = [], tone_map = [],
         patterns = [[(''search'', ''as soon as possible''), (''replace'', ''right away'')]],
         kyc_documents = [], sentence_length_limit = 22\<rparr>
        ''Please respond as soon as possible.''
      = Inr ''Please respond right away.''"
    by code_simp
  ultimately show ?thesis using apply_patterns_append by blast
qed

theorem C6_witness:
  "CHR 0x5C \<notin> set ''X'' \<and> ''ab'' \<noteq> []
   \<and> (\<exists>gs ms. length gs = Suc (length ms) \<and> weave gs ms = ''cabAB''
         \<and> list_all (\<lambda>m. map tolower m = map tolower ''ab'') ms
         \<and> list_all (\<lambda>g. \<not> ci_occurs ''ab'' g) gs
         \<and> apply_patterns ''cabAB'' [[(''search'', ''ab''), (''replace'', ''X'')]]
             = Inr (weave gs (map (\<lambda>m. ''X'') ms)))
   \<and> apply_patterns ''cabAB'' [[(''search'', ''ab''), (''replace'', ''X'')]] = Inr ''cXX''"
proof -
  have a: "CHR 0x5C \<notin> set ''X''" by code_simp
  have b: "''ab'' \<noteq> []" by simp
  have c: "apply_patterns ''cabAB'' [[(''search'', ''ab''), (''replace'', ''X'')]] = Inr ''cXX''"
    by code_simp
  have "\<exists>gs ms. length gs = Suc (length ms) \<and> weave gs ms = ''cabAB''
         \<and> list_all (\<lambda>m. map tolower m = map tolower ''ab'') ms
         \<and> list_all (\<lambda>g. \<not> ci_occurs ''ab'' g) gs
         \<and> apply_patterns ''cabAB'' [[(''search'', ''ab''), (''replace'', ''X'')]]
             = Inr (weave gs (map (\<lambda>m. ''X'') ms))"
    using C6_pattern_pass_literal_search [of "''cabAB''" "[]" "[]" "''X''" "''ab''"] a b
    by blast
  with a b c show ?thesis by blast
qed

subsection \<open>Which objects of a payload are simplified\<close>

lemma simplify_entries_nth:
  "simplify_entries self xs = Inr ys \<Longrightarrow>
   length ys = length xs \<and> (\<forall>i<length xs. simplify_entry self (xs ! i) = Inr (ys ! i))"
proof (induction xs arbitrary: ys)
  case Nil
  then show ?case by simp
next
  case (Cons x xs)
  from Cons.prems obtain y ys' where y: "simplify_entry self x = Inr y"
      and ys': "simplify_entries self xs = Inr ys'" and ys: "ys = y # ys'"
    by (auto split: sum.splits)
  from Cons.IH [OF ys'] y ys show ?case by (auto simp: nth_Cons split: nat.splits)
qed

lemma lookup_path_container:
  "lookup_path v p = Some x \<Longrightarrow> p \<noteq> [] \<Longrightarrow> is_container v"
  by (cases "(v, p)" rule: lookup_path.cases) (auto simp: is_container_def)

lemma template_path_nonempty: "template_path p \<Longrightarrow> p \<noteq> []"
  by (cases p) auto

lemma simplify_entry_at_path:
  "entry_path p \<Longrightarrow> lookup_path v p = Some (JDict entry) \<Longrightarrow>
   map_of entry (text_field self) = Some (JString s) \<Longrightarrow>
   simplify_entry self v = Inr v' \<Longrightarrow>
   \<exists>simplified. simplify_text (simplifier self) s = Inr simplified
      \<and> lookup_path v' p
          = Some (JDict (AList.update (output_field self) (JString simplified) entry))"
proof (induction p arbitrary: v v')
  case Nil
  then show ?case by (auto split: sum.splits)
next
  case (Cons st p)
  from Cons.prems(1) obtain i where st: "st = Index i" and p: "entry_path p"
    by (cases st) auto
  from Cons.prems(2) st obtain xs where v: "v = JList xs" and i: "i < length xs"
      and l: "lookup_path (xs ! i) p = Some (JDict entry)"
    by (cases v) (auto split: if_splits)
  from Cons.prems(4) v obtain ys where ys: "simplify_entries self xs = Inr ys"
      and v': "v' = JList ys"
    by (auto split: sum.splits)
  from simplify_entries_nth [OF ys] i
  have len: "length ys = length xs" and e: "simplify_entry self (xs ! i) = Inr (ys ! i)"
    by auto
  from Cons.IH [OF p l Cons.prems(3) e] st v' i len show ?case by simp
qed

lemma simplify_items_keys:
  "simplify_items self kvs = Inr kvs' \<Longrightarrow> map fst kvs' = map fst kvs"
  by (induction kvs arbitrary: kvs') (auto split: sum.splits if_splits)

lemma simplify_items_container:
  "simplify_items self kvs = Inr kvs' \<Longrightarrow> map_of kvs k = Some v \<Longrightarrow> is_container v \<Longrightarrow>
   \<exists>v'. map_of kvs' k = Some v' \<and> simplify_payload self v = Inr v'"
  by (induction kvs arbitrary: kvs') (auto split: sum.splits if_splits)

lemma simplify_items_scalar:
  "simplify_items self kvs = Inr kvs' \<Longrightarrow> map_of kvs k = Some v \<Longrightarrow> \<not> is_container v \<Longrightarrow>
   map_of kvs' k = Some v"
  by (induction kvs arbitrary: kvs') (auto split: sum.splits if_splits)

lemma simplify_payload_at_path:
  "template_path p \<Longrightarrow> lookup_path v p = Some (JDict entry) \<Longrightarrow>
   map_of entry (text_field self) = Some (JString s) \<Longrightarrow>
   simplify_payload self v = Inr v' \<Longrightarrow>
   \<exists>simplified. simplify_text (simplifier self) s = Inr simplified
      \<and> lookup_path v' p
          = Some (JDict (AList.update (output_field self) (JString simplified) entry))"
proof (induction p arbitrary: v v')
  case Nil
  then show ?case by simp
next
  case (Cons st p)
  show ?case
  proof (cases st)
    case (Key k)
    with Cons.prems(1) have p: "template_path p" by simp
    from Cons.prems(2) Key obtain kvs w where v: "v = JDict kvs" and w: "map_of kvs k = Some w"
        and l: "lookup_path w p = Some (JDict entry)"
      by (cases v) (auto split: option.splits)
    from Cons.prems(4) v obtain kvs' where kvs': "simplify_items self kvs = Inr kvs'"
        and v': "v' = JDict kvs'"
      by (auto split: sum.splits)
    have c: "is_container w"
      using lookup_path_container [OF l] template_path_nonempty [OF p] .
    from simplify_items_container [OF kvs' w c] obtain w' where w': "map_of kvs' k = Some w'"
        and sw: "simplify_payload self w = Inr w'"
      by auto
    from Cons.IH [OF p l Cons.prems(3) sw] Key v' w' show ?thesis by simp
  next
    case (Index i)
    with Cons.prems(1) have p: "entry_path p" by simp
    from Cons.prems(2) Index obtain xs where v: "v = JList xs" and i: "i < length xs"
        and l: "lookup_path (xs ! i) p = Some (JDict entry)"
      by (cases v) (auto split: if_splits)
    from Cons.prems(4) v obtain ys where ys: "simplify_entries self xs = Inr ys"
        and v': "v' = JList ys"
      by (auto split: sum.splits)
    from simplify_entries_nth [OF ys] i
    have len: "length ys = length xs" and e: "simplify_entry self (xs ! i) = Inr (ys ! i)"
      by auto
    from simplify_entry_at_path [OF p l Cons.prems(3) e] Index v' i len show ?thesis by simp
  qed
qed

text \<open>
  Claim C3. The claim says that \<^verbatim>\<open>simplify_payload\<close> simplifies every object with a
  string under the text field, also when the object is the top-level payload or the value
  of another object's key. For a dict payload, line 44 rebuilds the dict key by key and
  hands no object to \<^verbatim>\<open>_simplify_entry\<close>: the payload \<open>{"text": "KYC form required"}\<close>
  comes back as it is, with no output field, while its text simplifies to
  \<open>KYC form required.\<close>.
\<close>

theorem C3_counterexample:
  "simplify_payload
     \<lparr>simplifier = \<lparr>jargon_map = [], tone_map = [], patterns = [], kyc_documents = [],
                    sentence_length_limit = 22\<rparr>,
      text_field = ''text'', output_field = ''simplified_text''\<rparr>
     (JDict [(''text'', JString ''KYC form required'')])
     = Inr (JDict [(''text'', JString ''KYC form required'')])
   \<and> simplify_text
       \<lparr>jargon_map = [], tone_map = [], patterns = [], kyc_documents = [],
        sentence_length_limit = 22\<rparr> ''KYC form required''
     = Inr ''KYC form required.''"
  by code_simp

text \<open>
  Claim C3, amended. When \<^verbatim>\<open>simplify_payload\<close> returns, the objects it has simplified
  are the list entries: every object with a string under the text field that is reached
  from the payload through object keys first and then through one or more list indices
  comes back, at the same place, with the simplified text under the output field. An
  object that is the payload itself is not simplified: a dict payload comes back with the
  keys it had and with every value that is neither a list nor a dict unchanged. A list
  entry that is an object without the text field comes back unchanged, the objects under
  its keys with it.
\<close>

theorem C3_list_entries_are_simplified:
  "(template_path p \<and> lookup_path payload p = Some (JDict entry)
      \<and> map_of entry (text_field self) = Some (JString s)
      \<and> simplify_payload self payload = Inr result
    \<longrightarrow> (\<exists>simplified. simplify_text (simplifier self) s = Inr simplified
          \<and> lookup_path result p
              = Some (JDict (AList.update (output_field self) (JString simplified) entry))))
   \<and> (simplify_payload self (JDict kvs) = Inr result'
    \<longrightarrow> (\<exists>kvs'. result' = JDict kvs' \<and> map fst kvs' = map fst kvs
          \<and> (\<forall>k v. map_of kvs k = Some v \<and> \<not> is_container v \<longrightarrow> map_of kvs' k = Some v)))
   \<and> (map_of entry0 (text_field self) = None
    \<longrightarrow> simplify_entry self (JDict entry0) = Inr (JDict entry0))"
proof -
  have a: "template_path p \<and> lookup_path payload p = Some (JDict entry)
      \<and> map_of entry (text_field self) = Some (JString s)
      \<and> simplify_payload self payload = Inr result
    \<Longrightarrow> \<exists>simplified. simplify_text (simplifier self) s = Inr simplified
          \<and> lookup_path result p
              = Some (JDict (AList.update (output_field self) (JString simplified) entry))"
    using simplify_payload_at_path by blast
  have b: "\<exists>kvs'. result' = JDict kvs' \<and> map fst kvs' = map fst kvs
          \<and> (\<forall>k v. map_of kvs k = Some v \<and> \<not> is_container v \<longrightarrow> map_of kvs' k = Some v)"
    if r: "simplify_payload self (JDict kvs) = Inr result'"
  proof -
    from r obtain kvs' where k: "simplify_items self kvs = Inr kvs'" and r': "result' = JDict kvs'"
      by (auto split: sum.splits)
    have "map_of kvs' k = Some v" if "map_of kvs k = Some v" "\<not> is_container v" for k v
      using simplify_items_scalar [OF k that] .
    with simplify_items_keys [OF k] r' show ?thesis by blast
  qed
  have c: "map_of entry0 (text_field self) = None
    \<Longrightarrow> simplify_entry self (JDict entry0) = Inr (JDict entry0)"
    by simp
  from a b c show ?thesis by blast
qed

text \<open>
  The witness: the payload \<open>{"templates": [{"text": "KYC form required"}]}\<close>, whose
  entry at \<open>templates[0]\<close> receives the output field; the dict payload of the
  counterexample, which keeps its one key and value; and an entry without text field.
\<close>

theorem C3_witness:
  "template_path [Key ''templates'', Index 0]
   \<and> lookup_path (JDict [(''templates'', JList [JDict [(''text'', JString ''KYC form required'')]])])
        [Key ''templates'', Index 0]
      = Some (JDict [(''text'', JString ''KYC form required'')])
   \<and> simplify_payload
        \<lparr>simplifier = \<lparr>jargon_map = [], tone_map = [], patterns = [], kyc_documents = [],
                       sentence_length_limit = 22\<rparr>,
         text_field = ''text'', output_field = ''simplified_text''\<rparr>
        (JDict [(''templates'', JList [JDict [(''text'', JString ''KYC form required'')]])])
      = Inr (JDict [(''templates'',
               JList [JDict [(''text'', JString ''KYC form required''),
                             (''simplified_text'', JString ''KYC form required.'')]])])
   \<and> (\<exists>simplified.
        simplify_text
          \<lparr>jargon_map = [], tone_map = [], patterns = [], kyc_documents = [],
           sentence_length_limit = 22\<rparr> ''KYC form required'' = Inr simplified
        \<and> lookup_path
             (JDict [(''templates'',
                JList [JDict [(''text'', JString ''KYC form required''),
                              (''simplified_text'', JString ''KYC form required.'')]])])
             [Key ''templates'', Index 0]
           = Some (JDict (AList.update ''simplified_text'' (JString simplified)
                            [(''text'', JString ''KYC form required'')])))
   \<and> (\<exists>kvs'. JDict [(''text'', JString ''KYC form required'')] = JDict kvs'
         \<and> map fst kvs' = [''text'']
         \<and> map_of kvs' ''text'' = Some (JString ''KYC form required''))
   \<and> simplify_entry
        \<lparr>simplifier = \<lparr>jargon_map = [], tone_map = [], patterns = [], kyc_documents = [],
                       sentence_length_limit = 22\<rparr>,
         text_field = ''text'', output_field = ''simplified_text''\<rparr>
        (JDict [(''id'', JInt 1)]) = Inr (JDict [(''id'', JInt 1)])"
proof -
  let ?R = "\<lparr>jargon_map = [], tone_map = [], patterns = [], kyc_documents = [],
             sentence_length_limit = 22\<rparr>"
  let ?J = "\<lparr>simplifier = ?R, text_field = ''text'', output_field = ''simplified_text''\<rparr>"
  let ?e = "[(''text'', JString ''KYC form required'')]"
  let ?p = "[Key ''templates'', Index 0]"
  let ?v = "JDict [(''templates'', JList [JDict ?e])]"
  let ?r = "JDict [(''templates'',
               JList [JDict [(''text'', JString ''KYC form required''),
                             (''simplified_text'', JString ''KYC form required.'')]])]"
  have t: "template_path ?p" by simp
  have l: "lookup_path ?v ?p = Some (JDict ?e)" by simp
  have m: "map_of ?e (text_field ?J) = Some (JString ''KYC form required'')" by simp
  have s: "simplify_payload ?J ?v = Inr ?r" by code_simp
  have f1: "\<exists>simplified. simplify_text (simplifier ?J) ''KYC form required'' = Inr simplified
          \<and> lookup_path ?r ?p
              = Some (JDict (AList.update (output_field ?J) (JString simplified) ?e))"
    using C3_list_entries_are_simplified [of ?p ?v ?e ?J "''KYC form required''" ?r] t l m s
    by blast
  have d: "simplify_payload ?J (JDict ?e) = Inr (JDict ?e)" by code_simp
  have n: "\<not> is_container (JString ''KYC form required'')" by (simp add: is_container_def)
  have "\<exists>kvs'. JDict ?e = JDict kvs' \<and> map fst kvs' = map fst ?e
          \<and> (\<forall>k v. map_of ?e k = Some v \<and> \<not> is_container v \<longrightarrow> map_of kvs' k = Some v)"
    using C3_list_entries_are_simplified [of _ _ _ ?J _ _ ?e "JDict ?e"] d by blast
  then have f2: "\<exists>kvs'. JDict ?e = JDict kvs' \<and> map fst kvs' = [''text'']
         \<and> map_of kvs' ''text'' = Some (JString ''KYC form required'')"
    using n by auto
  have o: "map_of [(''id'', JInt 1)] (text_field ?J) = None" by simp
  have f3: "simplify_entry ?J (JDict [(''id'', JInt 1)]) = Inr (JDict [(''id'', JInt 1)])"
    using C3_list_entries_are_simplified [of _ _ _ ?J _ _ _ _ "[(''id'', JInt 1)]"] o by blast
  from f1 have f4: "\<exists>simplified. simplify_text ?R ''KYC form required'' = Inr simplified
        \<and> lookup_path ?r ?p
           = Some (JDict (AList.update ''simplified_text'' (JString simplified) ?e))"
    by simp
  from t l s f4 f2 f3 show ?thesis by blast
qed

subsection \<open>Terminal punctuation\<close>

lemma terminator_not_space: "terminator c \<Longrightarrow> \<not> isspace c"
  by (auto simp: terminator_def isspace_def)

lemma strip_empty_iff: "strip s = [] \<longleftrightarrow> list_all isspace s"
proof
  assume e: "strip s = []"
  show "list_all isspace s"
  proof (rule ccontr)
    assume n: "\<not> list_all isspace s"
    then have t: "dropWhile isspace s \<noteq> []"
      by (simp add: list_all_iff)
    then have "\<not> isspace (hd (dropWhile isspace s))" using hd_dropWhile by blast
    moreover have "hd (dropWhile isspace s) \<in> set (rev (dropWhile isspace s))"
      using t by simp
    ultimately have "dropWhile isspace (rev (dropWhile isspace s)) \<noteq> []"
      by auto
    with e show False by (simp add: strip_def)
  qed
next
  assume "list_all isspace s"
  then have "dropWhile isspace s = []" by (simp add: list_all_iff)
  then show "strip s = []" by (simp only: strip_def rev.simps dropWhile.simps)
qed

lemma strip_last:
  assumes "s \<noteq> []" and "\<not> isspace (last s)"
  shows "strip s \<noteq> [] \<and> last (strip s) = last s"
proof -
  let ?t = "dropWhile isspace s"
  from assms have m: "last s \<in> set s" by simp
  from m assms(2) have l: "last ?t = last s" by (rule dropWhile_last)
  from m assms(2) have t: "?t \<noteq> []" by auto
  from t l assms(2) have "\<not> isspace (hd (rev ?t))" by (simp add: hd_rev)
  with t have "dropWhile isspace (rev ?t) = rev ?t"
    by (simp add: dropWhile_eq_self_iff)
  then have "strip s = ?t" by (simp add: strip_def)
  with t l show ?thesis by simp
qed

lemma collapse_ws_last:
  "s \<noteq> [] \<Longrightarrow> \<not> isspace (last s) \<Longrightarrow> collapse_ws s \<noteq> [] \<and> last (collapse_ws s) = last s"
proof (induction s rule: collapse_ws.induct)
  case 1
  then show ?case by simp
next
  case (2 c cs)
  show ?case
  proof (cases "isspace c")
    case True
    with 2(4) have cs: "cs \<noteq> []" by auto
    with 2(4) have n: "\<not> isspace (last cs)" by simp
    from cs have m: "last cs \<in> set cs" by simp
    from m n have l: "last (dropWhile isspace cs) = last cs" by (rule dropWhile_last)
    from m n have d: "dropWhile isspace cs \<noteq> []" by auto
    from 2(1) [OF True d] n l
    have "collapse_ws (dropWhile isspace cs) \<noteq> []
          \<and> last (collapse_ws (dropWhile isspace cs)) = last cs"
      by simp
    with True cs show ?thesis by simp
  next
    case False
    show ?thesis
    proof (cases "cs = []")
      case True
      with False show ?thesis by simp
    next
      case nonempty: False
      with 2(4) have "\<not> isspace (last cs)" by simp
      from 2(2) [OF False nonempty this] False nonempty show ?thesis by simp
    qed
  qed
qed

lemma normalise_ws_last:
  "s \<noteq> [] \<Longrightarrow> \<not> isspace (last s) \<Longrightarrow> normalise_ws s \<noteq> [] \<and> last (normalise_ws s) = last s"
  unfolding normalise_ws_def using collapse_ws_last [of s] strip_last [of "collapse_ws s"]
  by simp

lemma normalise_ws_Nil: "normalise_ws [] = []"
  by (simp add: normalise_ws_def strip_def)

lemma collapse_ws_all_space: "list_all isspace (collapse_ws s) = list_all isspace s"
proof (induction s rule: collapse_ws.induct)
  case 1
  show ?case by simp
next
  case (2 c cs)
  have d: "list_all isspace (dropWhile isspace cs) = list_all isspace cs"
    by (induction cs) auto
  have b: "isspace CHR '' ''" by (simp add: isspace_def)
  from 2 d b show ?case by (cases "isspace c") auto
qed

lemma normalise_ws_empty_iff: "normalise_ws s = [] \<longleftrightarrow> list_all isspace s"
  by (simp add: normalise_ws_def strip_empty_iff collapse_ws_all_space)

lemma normalise_ws_all_space: "list_all isspace (normalise_ws s) = list_all isspace s"
proof -
  have "list_all isspace (strip x) \<longleftrightarrow> strip x = []" for x
    using strip_head [of x] by (cases "strip x") auto
  then show ?thesis
    by (simp add: normalise_ws_def strip_empty_iff collapse_ws_all_space)
qed

lemma split_sentences_nonempty: "split_sentences a s \<noteq> []"
  by (cases s) (auto split: list.splits)

lemma split_sentences_all_space:
  "list_all (list_all isspace) (split_sentences a s) = list_all isspace s"
proof (induction a s rule: split_sentences.induct)
  case (1 a)
  show ?case by simp
next
  case (2 a c cs)
  have d: "list_all isspace (dropWhile isspace cs) = list_all isspace cs"
    by (induction cs) auto
  show ?case
  proof (cases "a \<and> isspace c")
    case True
    with 2(1) d show ?thesis by simp
  next
    case False
    obtain p ps where s: "split_sentences (terminator c) cs = p # ps"
      using split_sentences_nonempty [of "terminator c" cs] by (cases "split_sentences (terminator c) cs") auto
    from 2(2) [OF False] s have "(list_all isspace p \<and> list_all (list_all isspace) ps) = list_all isspace cs"
      by simp
    with False s show ?thesis by auto
  qed
qed

lemma endswith_any_last: "endswith_any s cs \<Longrightarrow> s \<noteq> [] \<and> last s \<in> set cs"
  by (cases s rule: rev_cases) (auto simp: endswith_any_def)

lemma rewrite_sentence_terminated:
  "x \<in> set (rewrite_sentence self s) \<Longrightarrow> x \<noteq> [] \<and> terminator (last x)"
  using endswith_any_last [of "strip s" "''.?!''"]
  by (auto simp: rewrite_sentence_def Let_def terminator_def split: if_splits)

lemma rewrite_sentence_empty_iff: "rewrite_sentence self s = [] \<longleftrightarrow> list_all isspace s"
  by (simp add: rewrite_sentence_def Let_def strip_empty_iff)

lemma join_last:
  "xs \<noteq> [] \<Longrightarrow> last xs \<noteq> [] \<Longrightarrow> join sep xs \<noteq> [] \<and> last (join sep xs) = last (last xs)"
  by (induction sep xs rule: join.induct) auto

lemma rewrite_sentences_terminated:
  "rewrite_sentences self t = []
     \<and> list_all isspace t
   \<or> rewrite_sentences self t \<noteq> [] \<and> terminator (last (rewrite_sentences self t))
     \<and> \<not> list_all isspace t"
proof -
  let ?cleaned = "concat (map (rewrite_sentence self) (split_sentences False t))"
  have e: "?cleaned = [] \<longleftrightarrow> list_all isspace t"
    using split_sentences_all_space [of False t]
    by (simp add: rewrite_sentence_empty_iff list_all_iff)
  show ?thesis
  proof (cases "?cleaned = []")
    case True
    then have "rewrite_sentences self t = []"
      unfolding rewrite_sentences_def by (simp only: join.simps)
    with e True show ?thesis by blast
  next
    case False
    then have "last ?cleaned \<in> set ?cleaned" by (rule last_in_set)
    then obtain s where "last ?cleaned \<in> set (rewrite_sentence self s)"
      unfolding set_concat by auto
    from rewrite_sentence_terminated [OF this]
    have l: "last ?cleaned \<noteq> []" and t: "terminator (last (last ?cleaned))" by auto
    from join_last [OF False l, of "'' ''"] t e False show ?thesis
      by (simp add: rewrite_sentences_def)
  qed
qed

lemma simplify_text_substitute:
  "simplify_text self s =
     (if s = [] then Inr s
      else (case substitute self (normalise_ws s) of
              Inl e \<Rightarrow> Inl e
            | Inr t \<Rightarrow> Inr (normalise_ws (rewrite_sentences self t))))"
  by (simp add: simplify_text_def substitute_def split: sum.splits)

lemma simplify_text_output:
  assumes "simplify_text self s = Inr out"
  shows "(out = [] \<or> terminator (last out))
     \<and> (out = [] \<longleftrightarrow> s = [] \<or> (\<exists>t. substitute self (normalise_ws s) = Inr t \<and> list_all isspace t))"
proof (cases "s = []")
  case True
  with assms show ?thesis by (simp add: simplify_text_substitute)
next
  case False
  with assms obtain t where t: "substitute self (normalise_ws s) = Inr t"
      and out: "out = normalise_ws (rewrite_sentences self t)"
    by (auto simp: simplify_text_substitute split: sum.splits)
  show ?thesis
  proof (cases "list_all isspace t")
    case True
    with rewrite_sentences_terminated [of self t] have "rewrite_sentences self t = []" by blast
    with out have "out = []" by (simp add: normalise_ws_Nil)
    with t True show ?thesis by simp
  next
    case nonblank: False
    with rewrite_sentences_terminated [of self t]
    have r: "rewrite_sentences self t \<noteq> []" and l: "terminator (last (rewrite_sentences self t))"
      by blast+
    from normalise_ws_last [OF r terminator_not_space [OF l]] out l
    have "out \<noteq> []" and "terminator (last out)" by simp_all
    with t nonblank False show ?thesis by simp
  qed
qed

lemma substitute_no_rules:
  "jargon_map self = [] \<Longrightarrow> tone_map self = [] \<Longrightarrow> patterns self = [] \<Longrightarrow>
   kyc_documents self = [] \<Longrightarrow> substitute self t = Inr t"
  by (simp add: substitute_def apply_kyc_doc_rules_def)

text \<open>
  Claim C10. The claim says that the output of \<^verbatim>\<open>simplify_text\<close> ends in \<open>.\<close>, \<open>!\<close> or
  \<open>?\<close> unless it is empty, and that it is empty exactly when the input is empty or all
  whitespace. A rule may delete text: with the tone rule that replaces \<open>kindly\<close> by the
  empty string, the input \<open>Kindly\<close> gives the empty output.
\<close>

theorem C10_counterexample:
  "simplify_text
     \<lparr>jargon_map = [], tone_map = [(''kindly'', '''')], patterns = [], kyc_documents = [],
      sentence_length_limit = 22\<rparr> ''Kindly'' = Inr []
   \<and> ''Kindly'' \<noteq> [] \<and> \<not> list_all isspace ''Kindly''"
  by code_simp

text \<open>
  Claim C10, amended. Whenever \<^verbatim>\<open>simplify_text\<close> returns, its output is empty or ends in
  \<open>.\<close>, \<open>!\<close> or \<open>?\<close>; and it is empty exactly when the input is empty or the text the
  four substitution passes leave is empty or all whitespace. With no rules at all,
  \<^verbatim>\<open>simplify_text\<close> returns for every input, and the output is empty exactly when the
  input is empty or all whitespace.
\<close>

theorem C10_terminal_punctuation:
  "(simplify_text self s = Inr out \<longrightarrow>
      (out = [] \<or> terminator (last out))
      \<and> (out = [] \<longleftrightarrow>
           s = [] \<or> (\<exists>t. substitute self (normalise_ws s) = Inr t \<and> list_all isspace t)))
   \<and> (jargon_map self = [] \<and> tone_map self = [] \<and> patterns self = []
        \<and> kyc_documents self = [] \<longrightarrow>
      (\<exists>out'. simplify_text self s = Inr out' \<and> (out' = [] \<longleftrightarrow> list_all isspace s)))"
proof -
  have a: "simplify_text self s = Inr out \<Longrightarrow>
      (out = [] \<or> terminator (last out))
      \<and> (out = [] \<longleftrightarrow>
           s = [] \<or> (\<exists>t. substitute self (normalise_ws s) = Inr t \<and> list_all isspace t))"
    by (rule simplify_text_output)
  have b: "\<exists>out'. simplify_text self s = Inr out' \<and> (out' = [] \<longleftrightarrow> list_all isspace s)"
    if r: "jargon_map self = [] \<and> tone_map self = [] \<and> patterns self = []
        \<and> kyc_documents self = []"
  proof -
    from r have sub: "substitute self (normalise_ws s) = Inr (normalise_ws s)"
      by (simp add: substitute_no_rules)
    then obtain out' where o: "simplify_text self s = Inr out'"
      by (cases "s = []") (simp_all add: simplify_text_substitute)
    from simplify_text_output [OF o] sub
    have "out' = [] \<longleftrightarrow> s = [] \<or> list_all isspace (normalise_ws s)" by simp
    then have "out' = [] \<longleftrightarrow> list_all isspace s"
      by (auto simp: normalise_ws_all_space)
    with o show ?thesis by blast
  qed
  from a b show ?thesis by blast
qed

text \<open>
  The witness: under the rule that deletes \<open>kindly\<close>, \<open>Kindly  send it\<close> becomes
  \<open>send it.\<close>, which ends in a period, and what the substitution leaves is not blank;
  with no rules, the input of two blanks gives the empty output.
\<close>

theorem C10_witness:
  "simplify_text
     \<lparr>jargon_map = [], tone_map = [(''kindly'', '''')], patterns = [], kyc_documents = [],
      sentence_length_limit = 22\<rparr> ''Kindly  send it'' = Inr ''send it.''
   \<and> terminator (last ''send it.'')
   \<and> \<not> (''Kindly  send it'' = []
        \<or> (\<exists>t. substitute
                 \<lparr>jargon_map = [], tone_map = [(''kindly'', '''')], patterns = [],
                  kyc_documents = [], sentence_length_limit = 22\<rparr>
                 (normalise_ws ''Kindly  send it'') = Inr t
              \<and> list_all isspace t))
   \<and> list_all isspace ''  ''
   \<and> simplify_text
       \<lparr>jargon_map = [], tone_map = [], patterns = [], kyc_documents = [],
        sentence_length_limit = 22\<rparr> ''  '' = Inr []"
proof -
  let ?R = "\<lparr>jargon_map = [], tone_map = [(''kindly'', '''')], patterns = [],
             kyc_documents = [], sentence_length_limit = 22\<rparr>"
  let ?E = "\<lparr>jargon_map = [], tone_map = [], patterns = [], kyc_documents = [],
              sentence_length_limit = 22\<rparr>"
  have s: "simplify_text ?R ''Kindly  send it'' = Inr ''send it.''" by code_simp
  have n: "''send it.'' \<noteq> []" by simp
  from C10_terminal_punctuation [of ?R "''Kindly  send it''" "''send it.''"] s n
  have t: "terminator (last ''send it.'')"
    and e: "\<not> (''Kindly  send it'' = []
        \<or> (\<exists>t. substitute ?R (normalise_ws ''Kindly  send it'') = Inr t \<and> list_all isspace t))"
    by blast+
  have b: "list_all isspace ''  ''" by code_simp
  have r: "jargon_map ?E = [] \<and> tone_map ?E = [] \<and> patterns ?E = []
        \<and> kyc_documents ?E = []"
    by simp
  from C10_terminal_punctuation [of ?E "''  ''" "[]"] r
  obtain out' where o: "simplify_text ?E ''  '' = Inr out'"
      and i: "out' = [] \<longleftrightarrow> list_all isspace ''  ''"
    by blast
  from o i b have z: "simplify_text ?E ''  '' = Inr []" by simp
  from s t e b z show ?thesis by blast
qed

end
